theory Spec2Isabelle
  imports Main
begin

section \<open>Strings\<close>

text \<open>
  A JavaScript string is a sequence of UTF-16 code units; each unit is a natural number
  below 65536. Literals of the source are written \<open>js ''...''\<close>.
\<close>

type_synonym ustring = "nat list"

definition js :: "string \<Rightarrow> ustring" where
  "js s = map of_char s"

section \<open>The API client (src/matter-api.ts, first version)\<close>

subsection \<open>Data\<close>

text \<open>
  \<open>MatterTokens\<close>, \<open>TokenRefreshResponse\<close>, \<open>FeedEntry\<close> and \<open>FeedResponse\<close> are the
  interfaces of the source. Of \<open>Content\<close> only \<open>id\<close>, \<open>url\<close> and \<open>title\<close> are kept, and of
  \<open>FeedEntry\<close> the fields \<open>recommendations\<close> and \<open>annotations\<close> are left out: the client
  reads none of them. \<open>content.id\<close> is a JavaScript number that holds an integer; it is an
  \<open>int\<close> here, which is exact up to \<open>Number.MAX_SAFE_INTEGER\<close>.
\<close>

record MatterTokens =
  accessToken :: ustring
  refreshToken :: ustring

record TokenRefreshResponse =
  access_token :: ustring
  refresh_token :: ustring

record Content =
  content_id :: int
  content_url :: ustring
  content_title :: ustring

record FeedEntry =
  entry_id :: ustring
  content :: Content

record FeedResponse =
  feed_id :: ustring
  feed :: "FeedEntry list"
  "next" :: "ustring option"
  previous :: "ustring option"
  queue_count :: "int option"
  archive_count :: "int option"

subsection \<open>The network\<close>

text \<open>
  What \<open>fetch\<close> gives back: the promise is rejected (\<open>NetworkError\<close>, with the message of the
  exception), or a response arrives with its status, its status text and a body. The body
  is JSON text with its parsed value (\<open>Json\<close>), or text that is not JSON (\<open>NotJson\<close>), or
  there is no body (\<open>NoBody\<close>).
  \<^item> \<open>response.json()\<close> yields the value of a \<open>Json\<close> body; on the other two it throws a
    SyntaxError, whose message is the first argument.
  \<^item> \<open>response.text()\<close> called after a \<open>json()\<close> that threw: \<open>json()\<close> has read the body, so
    on a \<open>NotJson\<close> body \<open>text()\<close> throws a TypeError (the body is already used), whose
    message is the second argument; with no body it yields the empty string.
\<close>

datatype 'a body = Json 'a | NotJson ustring ustring | NoBody ustring

datatype 'a fetched = NetworkError ustring | Response nat ustring "'a body"

text \<open>
  The network is outside the program. It is a parameter: the answer to a call may depend on
  the moment of the call (the number of effects the client has caused so far), on the request
  and on the token sent. \<open>'e\<close> is the request as \<open>request\<close> receives it (endpoint and
  options, passed to \<open>fetch\<close> unchanged), \<open>'a\<close> the type the caller reads the body as.
\<close>

record ('e, 'a) world =
  fetch :: "nat \<Rightarrow> 'e \<Rightarrow> ustring \<Rightarrow> 'a fetched"
  refresh :: "nat \<Rightarrow> ustring \<Rightarrow> TokenRefreshResponse fetched"

text \<open>The effects of the client, in the order they happen.\<close>

datatype 'e call =
    Fetch 'e ustring
  | Refresh ustring
  | Notify ustring ustring



text \<open>
  The observer \<open>onTokenRefresh\<close> is a callback of the caller's: it returns or it throws.
\<close>

datatype callback_result = Returns | Throws

text \<open>
  The fields of class \<open>MatterClient\<close>, and the trace of the effects caused so far (the trace
  is not a field of the source: it records the calls so that they can be counted).
\<close>

record 'e MatterClient = MatterTokens +
  onTokenRefresh :: "(MatterTokens \<Rightarrow> callback_result) option"
  trace :: "'e call list"

text \<open>
  The exceptions that leave \<open>request\<close>: a \<open>MatterAPIError\<close> with message, status and the
  optional response body (parsed, or as text), the TypeError of a rejected \<open>fetch\<close> or of
  \<open>response.text()\<close> on a body already read, and the SyntaxError of \<open>response.json()\<close> on a
  successful response whose body is not JSON.
\<close>

datatype 'a errorBody = ParsedBody 'a | TextBody ustring

datatype 'a error =
    MatterAPIError ustring nat "'a errorBody option"
  | TypeError ustring
  | SyntaxError ustring


text \<open>\<open>response.ok\<close>: the status is in the range 200 to 299.\<close>

definition ok :: "nat \<Rightarrow> bool" where
  "ok st = (200 \<le> st \<and> st \<le> 299)"

subsection \<open>refreshAccessToken\<close>

text \<open>
  The whole body is inside \<open>try\<close>; the \<open>catch\<close> returns \<open>false\<close>. So a rejected fetch, a body
  that \<open>json()\<close> cannot parse and an observer that throws all end in \<open>false\<close>; the observer
  is called after the two token fields have been assigned.
\<close>

definition refreshAccessToken ::
  "('e, 'a) world \<Rightarrow> 'e MatterClient \<Rightarrow> bool \<times> 'e MatterClient" where
  "refreshAccessToken w c =
    (let c1 = c\<lparr>trace := trace c @ [Refresh (refreshToken c)]\<rparr> in
     case refresh w (length (trace c)) (refreshToken c) of
       NetworkError _ \<Rightarrow> (False, c1)
     | Response st txt b \<Rightarrow>
         if \<not> ok st then (False, c1)
         else (case b of
             NotJson _ _ \<Rightarrow> (False, c1)
           | NoBody _ \<Rightarrow> (False, c1)
           | Json d \<Rightarrow>
               (let c2 = c1\<lparr>accessToken := access_token d, refreshToken := refresh_token d\<rparr> in
                case onTokenRefresh c2 of
                  None \<Rightarrow> (True, c2)
                | Some f \<Rightarrow>
                    (let c3 = c2\<lparr>trace := trace c2 @ [Notify (accessToken c2) (refreshToken c2)]\<rparr> in
                     case f \<lparr>accessToken = accessToken c2, refreshToken = refreshToken c2\<rparr> of
                       Returns \<Rightarrow> (True, c3)
                     | Throws \<Rightarrow> (False, c3)))))"

subsection \<open>request\<close>

text \<open>
  The result is the parsed body (\<open>Inr\<close>) or the exception thrown (\<open>Inl\<close>), with the client
  as the call leaves it. \<open>retry\<close> is the second \<open>fetch\<close> of the source, inside the branch
  for status 401, with what follows it.
\<close>

definition retry :: "('e, 'a) world \<Rightarrow> 'e \<Rightarrow> 'e MatterClient \<Rightarrow> ('a error + 'a) \<times> 'e MatterClient" where
  "retry w e c =
    (let c1 = c\<lparr>trace := trace c @ [Fetch e (accessToken c)]\<rparr> in
     case fetch w (length (trace c)) e (accessToken c) of
       NetworkError m \<Rightarrow> (Inl (TypeError m), c1)
     | Response st txt b \<Rightarrow>
         if \<not> ok st
         then (Inl (MatterAPIError (js ''Request failed after token refresh: '' @ txt) st None), c1)
         else (case b of
             Json v \<Rightarrow> (Inr v, c1)
           | NotJson m _ \<Rightarrow> (Inl (SyntaxError m), c1)
           | NoBody m \<Rightarrow> (Inl (SyntaxError m), c1)))"

definition request :: "('e, 'a) world \<Rightarrow> 'e \<Rightarrow> 'e MatterClient \<Rightarrow> ('a error + 'a) \<times> 'e MatterClient" where
  "request w e c =
    (let c1 = c\<lparr>trace := trace c @ [Fetch e (accessToken c)]\<rparr> in
     case fetch w (length (trace c)) e (accessToken c) of
       NetworkError m \<Rightarrow> (Inl (TypeError m), c1)
     | Response st txt b \<Rightarrow>
         if st = 401 then
           (case refreshAccessToken w c1 of
              (True, c2) \<Rightarrow> retry w e c2
            | (False, c2) \<Rightarrow> (Inl (MatterAPIError (js ''Authentication failed'') 401 None), c2))
         else if \<not> ok st then
           (case b of
              Json v \<Rightarrow>
                (Inl (MatterAPIError (js ''Request failed: '' @ txt) st (Some (ParsedBody v))), c1)
            | NotJson _ m \<Rightarrow> (Inl (TypeError m), c1)
            | NoBody _ \<Rightarrow>
                (Inl (MatterAPIError (js ''Request failed: '' @ txt) st (Some (TextBody []))), c1))
         else (case b of
             Json v \<Rightarrow> (Inr v, c1)
           | NotJson m _ \<Rightarrow> (Inl (SyntaxError m), c1)
           | NoBody m \<Rightarrow> (Inl (SyntaxError m), c1)))"





subsection \<open>Numbers and strings\<close>

text \<open>
  \<open>parseInt(s, 10)\<close>: leading white space is skipped, one sign is read, then the longest
  run of decimal digits; with no digit the result is \<open>NaN\<close> (\<open>None\<close>). What follows the
  digits is ignored. The result is exact while it is at most \<open>Number.MAX_SAFE_INTEGER\<close>
  (beyond that the source's number is the nearest double, which this model does not follow).
\<close>

definition isWhiteSpace :: "nat \<Rightarrow> bool" where
  "isWhiteSpace u = (u \<in> {9, 10, 11, 12, 13, 32, 160, 5760, 8232, 8233, 8239, 8287, 12288, 65279}
     \<or> (8192 \<le> u \<and> u \<le> 8202))"

definition isDigit :: "nat \<Rightarrow> bool" where
  "isDigit u = (48 \<le> u \<and> u \<le> 57)"

definition digitsValue :: "ustring \<Rightarrow> int" where
  "digitsValue ds = foldl (\<lambda>a d. 10 * a + int (d - 48)) 0 ds"

definition parseInt :: "ustring \<Rightarrow> int option" where
  "parseInt s =
    (let t = dropWhile isWhiteSpace s;
         neg = (t \<noteq> [] \<and> hd t = 45);
         u = (if t \<noteq> [] \<and> (hd t = 43 \<or> hd t = 45) then tl t else t);
         ds = takeWhile isDigit u
     in if ds = [] then None
        else Some (if neg then - digitsValue ds else digitsValue ds))"

text \<open>
  \<open>String(n)\<close> for a number that holds an integer: the decimal digits, after a minus sign
  when it is negative (the source switches to exponent notation from \<open>10\<^sup>2\<^sup>1\<close> on).
\<close>

fun decimal :: "nat \<Rightarrow> ustring" where
  "decimal n = (if n < 10 then [48 + n] else decimal (n div 10) @ [48 + n mod 10])"

declare decimal.simps [simp del]

definition String :: "int \<Rightarrow> ustring" where
  "String n = (if n < 0 then 45 # decimal (nat (- n)) else decimal (nat n))"

subsection \<open>getArticles\<close>

text \<open>
  The endpoint \<open>/library_items/updates_feed/?after_timestamp=<t>&page=<n>\<close> is kept as its
  two parameters, not rendered to text.
\<close>

datatype feed_request = UpdatesFeed ustring int

text \<open>
  The \<open>options\<close> argument; a missing argument is the record of three \<open>None\<close>. The numbers
  are integers here. \<open>x || d\<close> takes \<open>d\<close> when \<open>x\<close> is undefined, 0 or the empty string.
\<close>

record ArticlesOptions =
  opt_limit :: "int option"
  opt_page :: "int option"
  opt_afterTimestamp :: "ustring option"

record ArticlesResult =
  articles :: "FeedEntry list"
  nextUrl :: "ustring option"
  queueCount :: "int option"
  archiveCount :: "int option"

definition orElseInt :: "int option \<Rightarrow> int \<Rightarrow> int" where
  "orElseInt x d = (case x of None \<Rightarrow> d | Some v \<Rightarrow> if v = 0 then d else v)"

definition orElseString :: "ustring option \<Rightarrow> ustring \<Rightarrow> ustring" where
  "orElseString x d = (case x of None \<Rightarrow> d | Some v \<Rightarrow> if v = [] then d else v)"

definition epoch :: ustring where
  "epoch = js ''1970-01-01T00:00:00.000000+00:00''"

text \<open>
  The \<open>while\<close> loop of \<open>getArticles\<close>, entered with the loop variables. It need not end, so
  the result is an option: \<open>None\<close> is a loop that runs forever. An exception of \<open>request\<close>
  leaves the loop (\<open>Inl\<close>). \<open>slice(0, limit)\<close> is reached only with \<open>limit\<close> positive.
\<close>

partial_function (option) getArticles_loop ::
  "(feed_request, FeedResponse) world \<Rightarrow> int \<Rightarrow> ustring \<Rightarrow> FeedEntry list \<Rightarrow> int \<Rightarrow> bool
    \<Rightarrow> int option \<Rightarrow> int option \<Rightarrow> feed_request MatterClient
    \<Rightarrow> ((FeedResponse error + ArticlesResult) \<times> feed_request MatterClient) option" where
  "getArticles_loop w lim ts allArticles pg hasMore qc ac c =
    (if hasMore \<and> int (length allArticles) < lim then
       (case request w (UpdatesFeed ts pg) c of
          (Inl err, c') \<Rightarrow> Some (Inl err, c')
        | (Inr response, c') \<Rightarrow>
            (let allArticles' = allArticles @ feed response;
                 qc' = (if pg = 1 then queue_count response else qc);
                 ac' = (if pg = 1 then archive_count response else ac)
             in if lim \<le> int (length allArticles')
                then Some (Inr \<lparr>articles = take (nat lim) allArticles', nextUrl = next response,
                                 queueCount = qc', archiveCount = ac'\<rparr>, c')
                else getArticles_loop w lim ts allArticles' (pg + 1) (next response \<noteq> None)
                       qc' ac' c'))
     else Some (Inr \<lparr>articles = allArticles, nextUrl = None, queueCount = qc, archiveCount = ac\<rparr>, c))"

definition getArticles ::
  "(feed_request, FeedResponse) world \<Rightarrow> ArticlesOptions \<Rightarrow> feed_request MatterClient
    \<Rightarrow> ((FeedResponse error + ArticlesResult) \<times> feed_request MatterClient) option" where
  "getArticles w options c =
     getArticles_loop w (orElseInt (opt_limit options) 100)
       (orElseString (opt_afterTimestamp options) epoch)
       [] (orElseInt (opt_page options) 1) True None None c"

subsection \<open>getArticle\<close>

text \<open>The predicate given to \<open>find\<close>; \<open>numericId\<close> is \<open>parseInt(articleId, 10)\<close>.\<close>

definition matches :: "ustring \<Rightarrow> int option \<Rightarrow> FeedEntry \<Rightarrow> bool" where
  "matches articleId numericId entry =
     (entry_id entry = articleId
      \<or> Some (content_id (content entry)) = numericId
      \<or> String (content_id (content entry)) = articleId)"

partial_function (option) getArticle_loop ::
  "(feed_request, FeedResponse) world \<Rightarrow> ustring \<Rightarrow> int option \<Rightarrow> int \<Rightarrow> bool
    \<Rightarrow> feed_request MatterClient
    \<Rightarrow> ((FeedResponse error + FeedEntry option) \<times> feed_request MatterClient) option" where
  "getArticle_loop w articleId numericId pg hasMore c =
    (if hasMore then
       (case request w (UpdatesFeed epoch pg) c of
          (Inl err, c') \<Rightarrow> Some (Inl err, c')
        | (Inr feedResponse, c') \<Rightarrow>
            (case find (matches articleId numericId) (feed feedResponse) of
               Some article \<Rightarrow> Some (Inr (Some article), c')
             | None \<Rightarrow>
                 getArticle_loop w articleId numericId (pg + 1) (next feedResponse \<noteq> None) c'))
     else Some (Inr None, c))"

definition getArticle ::
  "(feed_request, FeedResponse) world \<Rightarrow> ustring \<Rightarrow> feed_request MatterClient
    \<Rightarrow> ((FeedResponse error + FeedEntry option) \<times> feed_request MatterClient) option" where
  "getArticle w articleId c = getArticle_loop w articleId (parseInt articleId) 1 True c"

subsection \<open>Feeds\<close>

text \<open>
  A network answers the pages \<open>ps\<close> from page number \<open>p\<close> on when the request for page
  \<open>p + i\<close> is answered, at any moment and for any token, with an ok status and page \<open>i\<close> of
  the list.
\<close>

definition serves ::
  "(feed_request, FeedResponse) world \<Rightarrow> ustring \<Rightarrow> int \<Rightarrow> FeedResponse list \<Rightarrow> bool" where
  "serves w ts p ps =
     (\<forall>i t tok. i < length ps \<longrightarrow>
        (\<exists>st txt. ok st \<and> fetch w t (UpdatesFeed ts (p + int i)) tok = Response st txt (Json (ps ! i))))"

text \<open>Every page but the last carries a cursor.\<close>

fun linked :: "FeedResponse list \<Rightarrow> bool" where
  "linked [] = True"
| "linked [r] = True"
| "linked (r # rs) = (next r \<noteq> None \<and> linked rs)"

text \<open>All the entries of the pages, in page order.\<close>

definition entries :: "FeedResponse list \<Rightarrow> FeedEntry list" where
  "entries ps = concat (map feed ps)"

text \<open>The fetches of the \<open>k\<close> pages from page \<open>p\<close> on, with token \<open>tok\<close>.\<close>

definition page_fetches :: "ustring \<Rightarrow> int \<Rightarrow> nat \<Rightarrow> ustring \<Rightarrow> feed_request call list" where
  "page_fetches ts p k tok = map (\<lambda>i. Fetch (UpdatesFeed ts (p + int i)) tok) [0..<k]"


text \<open>How many pages it takes to gather \<open>n\<close> entries.\<close>

fun pages_needed :: "nat \<Rightarrow> FeedResponse list \<Rightarrow> nat" where
  "pages_needed n [] = 0"
| "pages_needed n (r # rs) =
     (if n \<le> length (feed r) then 1 else Suc (pages_needed (n - length (feed r)) rs))"

text \<open>
  A network stalls on a feed when it answers every page of it, at any moment, with an ok
  status, no entries and the one cursor \<open>cur\<close>.
\<close>

definition stalls :: "(feed_request, FeedResponse) world \<Rightarrow> ustring \<Rightarrow> ustring \<Rightarrow> bool" where
  "stalls w ts cur =
     (\<forall>t p tok. \<exists>st tx r. ok st
        \<and> fetch w t (UpdatesFeed ts p) tok = Response st tx (Json r)
        \<and> feed r = [] \<and> next r = Some cur)"

section \<open>The tool \<open>matter_get_article\<close> (src/server.ts)\<close>



section \<open>The OAuth bridge (src/api/oauth/authorize.ts, src/api/oauth/token.ts, src/api/mcp.ts)\<close>

subsection \<open>JSON text of an object of strings\<close>

text \<open>
  \<open>JSON.stringify\<close> of a string: the quotation mark, the backslash and the control
  characters are escaped, a surrogate that is not half of a pair is written \<open>\uXXXX\<close>, every
  other code unit stands for itself.
\<close>

definition hexDigit :: "nat \<Rightarrow> nat" where
  "hexDigit d = (if d < 10 then 48 + d else 87 + d)"

definition isHigh :: "nat \<Rightarrow> bool" where
  "isHigh u = (55296 \<le> u \<and> u \<le> 56319)"

definition isLow :: "nat \<Rightarrow> bool" where
  "isLow u = (56320 \<le> u \<and> u \<le> 57343)"

definition escapeUnit :: "nat \<Rightarrow> ustring" where
  "escapeUnit u =
    (if u = 8 then [92, 98] else if u = 9 then [92, 116] else if u = 10 then [92, 110]
     else if u = 12 then [92, 102] else if u = 13 then [92, 114]
     else if u = 34 then [92, 34] else if u = 92 then [92, 92]
     else if u < 32 \<or> isHigh u \<or> isLow u
       then [92, 117, hexDigit (u div 4096), hexDigit (u div 256 mod 16),
             hexDigit (u div 16 mod 16), hexDigit (u mod 16)]
     else [u])"

fun quoteBody :: "ustring \<Rightarrow> ustring" where
  "quoteBody [] = []"
| "quoteBody [u] = escapeUnit u"
| "quoteBody (u # l # us) =
     (if isHigh u \<and> isLow l then u # l # quoteBody us else escapeUnit u @ quoteBody (l # us))"

definition quote :: "ustring \<Rightarrow> ustring" where
  "quote s = [34] @ quoteBody s @ [34]"

text \<open>\<open>JSON.stringify({k1: v1, k2: v2})\<close> for two string values.\<close>

definition stringify2 :: "ustring \<Rightarrow> ustring \<Rightarrow> ustring \<Rightarrow> ustring \<Rightarrow> ustring" where
  "stringify2 k1 v1 k2 v2 =
     [123] @ quote k1 @ [58] @ quote v1 @ [44] @ quote k2 @ [58] @ quote v2 @ [125]"

text \<open>
  \<open>JSON.parse\<close>, for a text that is an object with string members: the result is the list
  of the members in the order of the text. Any other text gives \<open>None\<close>. The source throws
  on a text that is not JSON, and reads no property from a value that is not an object, so
  the model and the source part ways only on an object with a member that is not a string
  (numbers are floating point and are not modelled).
\<close>

definition isJsonWs :: "nat \<Rightarrow> bool" where
  "isJsonWs u = (u = 9 \<or> u = 10 \<or> u = 13 \<or> u = 32)"

definition hexValue :: "nat \<Rightarrow> nat option" where
  "hexValue u =
    (if 48 \<le> u \<and> u \<le> 57 then Some (u - 48)
     else if 97 \<le> u \<and> u \<le> 102 then Some (u - 87)
     else if 65 \<le> u \<and> u \<le> 70 then Some (u - 55)
     else None)"

definition unescape :: "nat \<Rightarrow> nat option" where
  "unescape e =
    (if e = 34 then Some 34 else if e = 92 then Some 92 else if e = 47 then Some 47
     else if e = 98 then Some 8 else if e = 102 then Some 12 else if e = 110 then Some 10
     else if e = 114 then Some 13 else if e = 116 then Some 9 else None)"

definition hex4 :: "nat \<Rightarrow> nat \<Rightarrow> nat \<Rightarrow> nat \<Rightarrow> nat option" where
  "hex4 h1 h2 h3 h4 =
    (case (hexValue h1, hexValue h2, hexValue h3, hexValue h4) of
       (Some a, Some b, Some c, Some d) \<Rightarrow> Some (a * 4096 + b * 256 + c * 16 + d)
     | _ \<Rightarrow> None)"

definition consTo :: "nat \<Rightarrow> (ustring \<times> ustring) option \<Rightarrow> (ustring \<times> ustring) option" where
  "consTo u r = map_option (\<lambda>(s, t). (u # s, t)) r"

text \<open>
  The text after an opening quotation mark: the string it denotes, and what follows the
  closing quotation mark.
\<close>

fun unquoteBody :: "ustring \<Rightarrow> (ustring \<times> ustring) option" where
  "unquoteBody [] = None"
| "unquoteBody (c # cs) =
    (if c = 34 then Some ([], cs)
     else if c = 92 then
       (case cs of
          [] \<Rightarrow> None
        | e # r \<Rightarrow>
            if e = 117 then
              (case r of
                 h1 # h2 # h3 # h4 # r' \<Rightarrow>
                   (case hex4 h1 h2 h3 h4 of
                      Some u \<Rightarrow> consTo u (unquoteBody r')
                    | None \<Rightarrow> None)
               | _ \<Rightarrow> None)
            else (case unescape e of
                Some u \<Rightarrow> consTo u (unquoteBody r)
              | None \<Rightarrow> None))
     else if c < 32 then None
     else consTo c (unquoteBody cs))"

text \<open>One member \<open>"key" : "value"\<close>, with the white space JSON allows.\<close>

definition parseMember :: "ustring \<Rightarrow> ((ustring \<times> ustring) \<times> ustring) option" where
  "parseMember s =
    (case dropWhile isJsonWs s of
       [] \<Rightarrow> None
     | q # s1 \<Rightarrow>
         if q \<noteq> 34 then None
         else (case unquoteBody s1 of
             None \<Rightarrow> None
           | Some (k, s2) \<Rightarrow>
               (case dropWhile isJsonWs s2 of
                  [] \<Rightarrow> None
                | c # s3 \<Rightarrow>
                    if c \<noteq> 58 then None
                    else (case dropWhile isJsonWs s3 of
                        [] \<Rightarrow> None
                      | q2 # s4 \<Rightarrow>
                          if q2 \<noteq> 34 then None
                          else (case unquoteBody s4 of
                              None \<Rightarrow> None
                            | Some (v, s5) \<Rightarrow> Some ((k, v), dropWhile isJsonWs s5))))))"

lemma unquoteBody_shorter: "unquoteBody s = Some (v, t) \<Longrightarrow> length t < length s"
proof (induction s arbitrary: v t rule: unquoteBody.induct)
  case 1
  then show ?case by simp
next
  case (2 c cs)
  then show ?case
    by (fastforce simp: consTo_def split: if_splits list.splits option.splits)
qed

lemma length_dropWhile_le_self: "length (dropWhile P xs) \<le> length xs"
  by (induction xs) auto

lemma parseMember_shorter: "parseMember s = Some (m, t) \<Longrightarrow> length t < length s"
proof -
  assume a: "parseMember s = Some (m, t)"
  then obtain s1 k s2 s3 s4 v s5 where d:
    "dropWhile isJsonWs s = 34 # s1" "unquoteBody s1 = Some (k, s2)"
    "dropWhile isJsonWs s2 = 58 # s3" "dropWhile isJsonWs s3 = 34 # s4"
    "unquoteBody s4 = Some (v, s5)" "t = dropWhile isJsonWs s5"
    by (auto simp: parseMember_def split: list.splits if_splits option.splits)
  have "length s1 < length s"
    using length_dropWhile_le_self [of isJsonWs s] d(1) by simp
  moreover have "length s2 < length s1"
    using d(2) by (rule unquoteBody_shorter)
  moreover have "length s3 < length s2"
    using length_dropWhile_le_self [of isJsonWs s2] d(3) by simp
  moreover have "length s4 < length s3"
    using length_dropWhile_le_self [of isJsonWs s3] d(4) by simp
  moreover have "length s5 < length s4"
    using d(5) by (rule unquoteBody_shorter)
  moreover have "length t \<le> length s5"
    using length_dropWhile_le_self [of isJsonWs s5] d(6) by simp
  ultimately show ?thesis by linarith
qed

text \<open>The members after the opening brace, up to the closing one.\<close>

function parseMembers ::
  "ustring \<Rightarrow> (ustring \<times> ustring) list \<Rightarrow> ((ustring \<times> ustring) list \<times> ustring) option" where
  "parseMembers s acc =
    (case parseMember s of
       None \<Rightarrow> None
     | Some (m, t) \<Rightarrow>
         (case t of
            [] \<Rightarrow> None
          | d # t' \<Rightarrow>
              if d = 44 then parseMembers t' (acc @ [m])
              else if d = 125 then Some (acc @ [m], t')
              else None))"
  by pat_completeness auto
termination
  by (relation "measure (\<lambda>(s, acc). length s)") (auto dest: parseMember_shorter)

definition parseObject :: "ustring \<Rightarrow> (ustring \<times> ustring) list option" where
  "parseObject s =
    (case dropWhile isJsonWs s of
       [] \<Rightarrow> None
     | b # s1 \<Rightarrow>
         if b \<noteq> 123 then None
         else (case dropWhile isJsonWs s1 of
             [] \<Rightarrow> None
           | e # s2 \<Rightarrow>
               if e = 125 then (if dropWhile isJsonWs s2 = [] then Some [] else None)
               else (case parseMembers s1 [] of
                   None \<Rightarrow> None
                 | Some (ms, rest) \<Rightarrow>
                     if dropWhile isJsonWs rest = [] then Some ms else None)))"

text \<open>Reading a property: the last member with that key; \<open>undefined\<close> is \<open>None\<close>.\<close>

definition property :: "(ustring \<times> ustring) list \<Rightarrow> ustring \<Rightarrow> ustring option" where
  "property ms k = map_of (rev ms) k"


subsection \<open>Base64\<close>

definition b64char :: "nat \<Rightarrow> nat" where
  "b64char i =
    (if i < 26 then 65 + i else if i < 52 then 71 + i else if i < 62 then i - 4
     else if i = 62 then 43 else 47)"

fun b64encode :: "nat list \<Rightarrow> ustring" where
  "b64encode [] = []"
| "b64encode [a] = [b64char (a div 4), b64char (a mod 4 * 16), 61, 61]"
| "b64encode [a, b] =
     [b64char (a div 4), b64char (a mod 4 * 16 + b div 16), b64char (b mod 16 * 4), 61]"
| "b64encode (a # b # c # bs) =
     b64char (a div 4) # b64char (a mod 4 * 16 + b div 16)
       # b64char (b mod 16 * 4 + c div 64) # b64char (c mod 64) # b64encode bs"

text \<open>
  \<open>btoa\<close> reads each code unit as one byte and throws when a unit is above 255.
\<close>

definition btoa :: "ustring \<Rightarrow> ustring option" where
  "btoa s = (if list_all (\<lambda>u. u \<le> 255) s then Some (b64encode s) else None)"

text \<open>
  \<open>Buffer.from(s, "base64")\<close>: the standard and the URL-safe alphabet are both read, any
  other character is skipped, and decoding stops at the first padding character.
\<close>

definition b64index :: "nat \<Rightarrow> nat option" where
  "b64index u =
    (if 65 \<le> u \<and> u \<le> 90 then Some (u - 65)
     else if 97 \<le> u \<and> u \<le> 122 then Some (u - 71)
     else if 48 \<le> u \<and> u \<le> 57 then Some (u + 4)
     else if u = 43 \<or> u = 45 then Some 62
     else if u = 47 \<or> u = 95 then Some 63
     else None)"

fun decodeGroups :: "nat list \<Rightarrow> nat list" where
  "decodeGroups (a # b # c # d # r) =
     (a * 4 + b div 16) # (b mod 16 * 16 + c div 4) # (c mod 4 * 64 + d) # decodeGroups r"
| "decodeGroups [a, b, c] = [a * 4 + b div 16, b mod 16 * 16 + c div 4]"
| "decodeGroups [a, b] = [a * 4 + b div 16]"
| "decodeGroups _ = []"

definition b64decode :: "ustring \<Rightarrow> nat list" where
  "b64decode s = decodeGroups (List.map_filter b64index (takeWhile (\<lambda>u. u \<noteq> 61) s))"

subsection \<open>UTF-8\<close>

text \<open>
  \<open>buffer.toString("utf-8")\<close>: well-formed sequences give their code point (two surrogates
  above the basic plane); a byte that cannot start or continue a sequence gives U+FFFD,
  one for each maximal ill-formed part.
\<close>

definition isCont :: "nat \<Rightarrow> bool" where
  "isCont b = (128 \<le> b \<and> b \<le> 191)"

definition surrogates :: "nat \<Rightarrow> ustring" where
  "surrogates cp = [55296 + (cp - 65536) div 1024, 56320 + (cp - 65536) mod 1024]"

fun utf8_decode :: "nat list \<Rightarrow> ustring" where
  "utf8_decode [] = []"
| "utf8_decode (b # bs) =
    (if b < 128 then b # utf8_decode bs
     else if 194 \<le> b \<and> b \<le> 223 then
       (case bs of
          [] \<Rightarrow> [65533]
        | c1 # r1 \<Rightarrow>
            if isCont c1 then ((b - 192) * 64 + (c1 - 128)) # utf8_decode r1
            else 65533 # utf8_decode bs)
     else if 224 \<le> b \<and> b \<le> 239 then
       (case bs of
          [] \<Rightarrow> [65533]
        | c1 # r1 \<Rightarrow>
            if (if b = 224 then 160 else 128) \<le> c1 \<and> c1 \<le> (if b = 237 then 159 else 191) then
              (case r1 of
                 [] \<Rightarrow> [65533]
               | c2 # r2 \<Rightarrow>
                   if isCont c2
                   then ((b - 224) * 4096 + (c1 - 128) * 64 + (c2 - 128)) # utf8_decode r2
                   else 65533 # utf8_decode r1)
            else 65533 # utf8_decode bs)
     else if 240 \<le> b \<and> b \<le> 244 then
       (case bs of
          [] \<Rightarrow> [65533]
        | c1 # r1 \<Rightarrow>
            if (if b = 240 then 144 else 128) \<le> c1 \<and> c1 \<le> (if b = 244 then 143 else 191) then
              (case r1 of
                 [] \<Rightarrow> [65533]
               | c2 # r2 \<Rightarrow>
                   if isCont c2 then
                     (case r2 of
                        [] \<Rightarrow> [65533]
                      | c3 # r3 \<Rightarrow>
                          if isCont c3
                          then surrogates ((b - 240) * 262144 + (c1 - 128) * 4096
                                 + (c2 - 128) * 64 + (c3 - 128)) @ utf8_decode r3
                          else 65533 # utf8_decode r2)
                   else 65533 # utf8_decode r1)
            else 65533 # utf8_decode bs)
     else 65533 # utf8_decode bs)"

text \<open>
  \<open>Buffer.from(s)\<close>: the UTF-8 bytes of the string; a surrogate that is not half of a pair
  is written as U+FFFD.
\<close>

declare utf8_decode.simps(2) [simp del]

fun utf8_encode :: "ustring \<Rightarrow> nat list" where
  "utf8_encode [] = []"
| "utf8_encode (u # us) =
    (if u < 128 then u # utf8_encode us
     else if u < 2048 then (192 + u div 64) # (128 + u mod 64) # utf8_encode us
     else if isHigh u then
       (case us of
          [] \<Rightarrow> [239, 191, 189]
        | l # r \<Rightarrow>
            if isLow l then
              (let cp = 65536 + (u - 55296) * 1024 + (l - 56320)
               in (240 + cp div 262144) # (128 + cp div 4096 mod 64)
                    # (128 + cp div 64 mod 64) # (128 + cp mod 64) # utf8_encode r)
            else 239 # 191 # 189 # utf8_encode us)
     else if isLow u then 239 # 191 # 189 # utf8_encode us
     else (224 + u div 4096) # (128 + u div 64 mod 64) # (128 + u mod 64) # utf8_encode us)"

declare utf8_encode.simps(2) [simp del]

subsection \<open>authorize.ts: the polling loop of the page\<close>






text \<open>The authorization code: \<open>btoa(JSON.stringify({access_token, refresh_token}))\<close>.\<close>

definition authorization_code :: "ustring \<Rightarrow> ustring \<Rightarrow> ustring option" where
  "authorization_code a r = btoa (stringify2 (js ''access_token'') a (js ''refresh_token'') r)"






subsection \<open>token.ts: the token endpoint\<close>

text \<open>
  The answers of the handler: 204, 405, 400 \<open>invalid_request\<close>, 400 \<open>invalid_grant\<close>, and 200
  with \<open>access_token\<close> and \<open>refresh_token\<close> (\<open>token_type\<close> is always \<open>Bearer\<close>). The request is
  its method and the \<open>code\<close> read from the body, if any (the parsing of a form body is not
  modelled).
\<close>

datatype TokenResponse =
    NoContent
  | MethodNotAllowed
  | InvalidRequest
  | InvalidGrant
  | Tokens ustring ustring

definition token_handler :: "ustring \<Rightarrow> ustring option \<Rightarrow> TokenResponse" where
  "token_handler method code =
    (if method = js ''OPTIONS'' then NoContent
     else if method \<noteq> js ''POST'' then MethodNotAllowed
     else (case code of
         None \<Rightarrow> InvalidRequest
       | Some cd \<Rightarrow>
           if cd = [] then InvalidRequest
           else (case parseObject (utf8_decode (b64decode cd)) of
               None \<Rightarrow> InvalidGrant
             | Some decoded \<Rightarrow>
                 (case (property decoded (js ''access_token''),
                        property decoded (js ''refresh_token'')) of
                    (Some a, Some r) \<Rightarrow>
                      if a = [] \<or> r = [] then InvalidGrant
                      else Tokens
                             (b64encode (utf8_encode
                                (stringify2 (js ''accessToken'') a (js ''refreshToken'') r)))
                             r
                  | _ \<Rightarrow> InvalidGrant))))"

subsection \<open>mcp.ts: the tokens of a request\<close>

record Headers =
  authorization :: "ustring option"
  x_matter_access_token :: "ustring option"
  x_matter_refresh_token :: "ustring option"

definition bearerTokens :: "ustring \<Rightarrow> MatterTokens option" where
  "bearerTokens token =
    (case parseObject (utf8_decode (b64decode token)) of
       None \<Rightarrow> None
     | Some decoded \<Rightarrow>
         (case (property decoded (js ''accessToken''), property decoded (js ''refreshToken'')) of
            (Some a, Some r) \<Rightarrow>
              if a \<noteq> [] \<and> r \<noteq> [] then Some \<lparr>accessToken = a, refreshToken = r\<rparr> else None
          | _ \<Rightarrow> None))"

definition getTokensFromRequest :: "Headers \<Rightarrow> MatterTokens option" where
  "getTokensFromRequest h =
    (case (case authorization h of
             None \<Rightarrow> None
           | Some authHeader \<Rightarrow>
               if take 7 authHeader = js ''Bearer '' then bearerTokens (drop 7 authHeader)
               else None) of
       Some tokens \<Rightarrow> Some tokens
     | None \<Rightarrow>
         (case (x_matter_access_token h, x_matter_refresh_token h) of
            (Some a, Some r) \<Rightarrow>
              if a \<noteq> [] \<and> r \<noteq> [] then Some \<lparr>accessToken = a, refreshToken = r\<rparr> else None
          | _ \<Rightarrow> None))"

text \<open>
  The whole way of a pair: packed by the page, exchanged at the token endpoint, sent as
  bearer token and opened by the resource endpoint.
\<close>

definition round_trip :: "ustring \<Rightarrow> ustring \<Rightarrow> MatterTokens option" where
  "round_trip a r =
    (case authorization_code a r of
       None \<Rightarrow> None
     | Some code \<Rightarrow>
         (case token_handler (js ''POST'') (Some code) of
            Tokens bearer _ \<Rightarrow>
              getTokensFromRequest \<lparr>authorization = Some (js ''Bearer '' @ bearer),
                x_matter_access_token = None, x_matter_refresh_token = None\<rparr>
          | _ \<Rightarrow> None))"

section \<open>Sample networks and feeds\<close>

text \<open>
  \<open>rotating_world\<close>: the API rejects every token but \<open>new\<close> with 401; the refresh endpoint
  hands out the pair \<open>new\<close>, \<open>r2\<close>. \<open>failing_world\<close>: the API answers 401 to the old token
  and 500 to every other; the refresh endpoint is the same.
\<close>

definition rotating_world :: "(unit, nat) world" where
  "rotating_world =
    \<lparr>fetch = (\<lambda>t e tok. if tok = js ''new'' then Response 200 (js ''OK'') (Json 7)
                       else Response 401 (js ''Unauthorized'') (NotJson [] [])),
     refresh = (\<lambda>t r. Response 200 (js ''OK'')
                  (Json \<lparr>access_token = js ''new'', refresh_token = js ''r2''\<rparr>))\<rparr>"



definition observed_client :: "callback_result \<Rightarrow> unit MatterClient" where
  "observed_client r =
     \<lparr>accessToken = js ''old'', refreshToken = js ''r1'', onTokenRefresh = Some (\<lambda>_. r), trace = []\<rparr>"

text \<open>
  \<open>paged_world ps\<close> answers page \<open>n\<close> of any feed with the \<open>n\<close>-th page of \<open>ps\<close> and 404 beyond;
  \<open>stuck_world\<close> answers every page with no entries and the same cursor.
\<close>

definition paged_world :: "FeedResponse list \<Rightarrow> (feed_request, FeedResponse) world" where
  "paged_world ps =
    \<lparr>fetch = (\<lambda>t e tok. case e of UpdatesFeed ts p \<Rightarrow>
                 if 1 \<le> p \<and> p \<le> int (length ps)
                 then Response 200 (js ''OK'') (Json (ps ! nat (p - 1)))
                 else Response 404 (js ''Not Found'') (NotJson [] [])),
     refresh = (\<lambda>t r. Response 401 (js ''Unauthorized'') (NotJson [] []))\<rparr>"

definition stuck_world :: "(feed_request, FeedResponse) world" where
  "stuck_world =
    \<lparr>fetch = (\<lambda>t e tok. Response 200 (js ''OK'')
                 (Json \<lparr>feed_id = [], feed = [], next = Some (js ''same''), previous = None,
                        queue_count = None, archive_count = None\<rparr>)),
     refresh = (\<lambda>t r. Response 401 (js ''Unauthorized'') (NotJson [] []))\<rparr>"

definition reader :: "feed_request MatterClient" where
  "reader = \<lparr>accessToken = js ''tok'', refreshToken = js ''ref'', onTokenRefresh = None, trace = []\<rparr>"

definition entry :: "string \<Rightarrow> int \<Rightarrow> FeedEntry" where
  "entry i n = \<lparr>entry_id = js i,
                content = \<lparr>content_id = n, content_url = [], content_title = []\<rparr>\<rparr>"

definition page_of :: "FeedEntry list \<Rightarrow> ustring option \<Rightarrow> FeedResponse" where
  "page_of es nx = \<lparr>feed_id = [], feed = es, next = nx, previous = None,
                    queue_count = None, archive_count = None\<rparr>"

text \<open>
  \<open>long_feed\<close>: three pages, the second empty, with content id 2 at two places.
  \<open>trailing_feed\<close>: one entry, then an empty last page.
\<close>

definition long_feed :: "FeedResponse list" where
  "long_feed =
    [page_of [entry ''a'' 1, entry ''b'' 2] (Some (js ''c1'')),
     page_of [] (Some (js ''c2'')),
     page_of [entry ''c'' 2, entry ''d'' 123] None]"

definition trailing_feed :: "FeedResponse list" where
  "trailing_feed = [page_of [entry ''a'' 1] (Some (js ''c1'')), page_of [] None]"

definition options_limit :: "int \<Rightarrow> ArticlesOptions" where
  "options_limit n = \<lparr>opt_limit = Some n, opt_page = None, opt_afterTimestamp = None\<rparr>"






section \<open>The executor: refresh and retry\<close>



lemma retry_trace:
  "trace (snd (retry w e c)) = trace c @ [Fetch e (accessToken c)]"
  by (simp add: retry_def Let_def split: fetched.split body.split)





section \<open>The executor: the observer of a refresh\<close>

text \<open>
  C8 (as amended). When the first attempt is answered 401 and the refresh endpoint answers
  with a new pair, the client installs the pair and then calls the observer with it, inside
  the \<open>try\<close> of \<open>refreshAccessToken\<close>. With no observer, or with one that returns, the request
  goes on to the retry with the new access token. An observer that throws is caught by the
  \<open>catch\<close> that returns \<open>false\<close>: the request is not retried and raises
  \<open>Authentication failed\<close> (401), with the new pair left installed in the client.
\<close>

theorem request_observer_outcome:
  assumes first: "fetch w (length (trace c)) e (accessToken c) = Response 401 txt b"
    and answer: "refresh w (Suc (length (trace c))) (refreshToken c) = Response st rtxt (Json d)"
    and good: "ok st"
  shows "(case onTokenRefresh c of
      None \<Rightarrow>
        trace (snd (request w e c))
          = trace c @ [Fetch e (accessToken c), Refresh (refreshToken c), Fetch e (access_token d)]
    | Some f \<Rightarrow>
        (case f \<lparr>accessToken = access_token d, refreshToken = refresh_token d\<rparr> of
           Returns \<Rightarrow>
             trace (snd (request w e c))
               = trace c @ [Fetch e (accessToken c), Refresh (refreshToken c),
                            Notify (access_token d) (refresh_token d), Fetch e (access_token d)]
         | Throws \<Rightarrow>
             request w e c
               = (Inl (MatterAPIError (js ''Authentication failed'') 401 None),
                  c\<lparr>accessToken := access_token d, refreshToken := refresh_token d,
                    trace := trace c @ [Fetch e (accessToken c), Refresh (refreshToken c),
                                        Notify (access_token d) (refresh_token d)]\<rparr>)))"
proof (cases "onTokenRefresh c")
  case None
  then have "refreshAccessToken w (c\<lparr>trace := trace c @ [Fetch e (accessToken c)]\<rparr>)
      = (True, c\<lparr>accessToken := access_token d, refreshToken := refresh_token d,
                 trace := trace c @ [Fetch e (accessToken c), Refresh (refreshToken c)]\<rparr>)"
    using answer good by (simp add: refreshAccessToken_def Let_def)
  then show ?thesis
    using None first by (simp add: request_def Let_def retry_trace)
next
  case (Some f)
  show ?thesis
  proof (cases "f \<lparr>accessToken = access_token d, refreshToken = refresh_token d\<rparr>")
    case Returns
    then have "refreshAccessToken w (c\<lparr>trace := trace c @ [Fetch e (accessToken c)]\<rparr>)
        = (True, c\<lparr>accessToken := access_token d, refreshToken := refresh_token d,
                   trace := trace c @ [Fetch e (accessToken c), Refresh (refreshToken c),
                                       Notify (access_token d) (refresh_token d)]\<rparr>)"
      using Some answer good by (simp add: refreshAccessToken_def Let_def)
    then show ?thesis
      using Some Returns first by (simp add: request_def Let_def retry_trace)
  next
    case Throws
    then have "refreshAccessToken w (c\<lparr>trace := trace c @ [Fetch e (accessToken c)]\<rparr>)
        = (False, c\<lparr>accessToken := access_token d, refreshToken := refresh_token d,
                    trace := trace c @ [Fetch e (accessToken c), Refresh (refreshToken c),
                                        Notify (access_token d) (refresh_token d)]\<rparr>)"
      using Some answer good by (simp add: refreshAccessToken_def Let_def)
    then show ?thesis
      using Some Throws first by (simp add: request_def Let_def)
  qed
qed

theorem request_observer_witness:
  "trace (snd (request rotating_world () (observed_client Returns)))
     = [Fetch () (js ''old''), Refresh (js ''r1''), Notify (js ''new'') (js ''r2''),
        Fetch () (js ''new'')]"
proof -
  let ?c = "observed_client Returns"
  let ?d = "\<lparr>access_token = js ''new'', refresh_token = js ''r2''\<rparr>"
  have first: "fetch rotating_world (length (trace ?c)) () (accessToken ?c)
      = Response 401 (js ''Unauthorized'') (NotJson [] [])"
    by (simp add: rotating_world_def observed_client_def js_def)
  have answer: "refresh rotating_world (Suc (length (trace ?c))) (refreshToken ?c)
      = Response 200 (js ''OK'') (Json ?d)"
    by (simp add: rotating_world_def)
  have good: "ok 200"
    by (simp add: ok_def)
  show ?thesis
    using request_observer_outcome [OF first answer good]
    by (simp add: observed_client_def)
qed

text \<open>
  C8, the claim as stated fails: with an observer that throws, the refresh that the
  endpoint answered with a new pair is reported as failed and the request raises
  \<open>Authentication failed\<close>; with an observer that returns, the same request succeeds.
\<close>

theorem observer_throws_counterexample:
  "fst (request rotating_world () (observed_client Throws))
     = Inl (MatterAPIError (js ''Authentication failed'') 401 None)
   \<and> fst (refreshAccessToken rotating_world
            ((observed_client Throws)\<lparr>trace := [Fetch () (js ''old'')]\<rparr>)) = False
   \<and> fst (request rotating_world () (observed_client Returns)) = Inr 7"
  by (simp add: request_def retry_def refreshAccessToken_def rotating_world_def
      observed_client_def ok_def Let_def js_def)

section \<open>Pagination: one page after the other\<close>

lemma request_served:
  assumes "ok st" "fetch w (length (trace c)) e (accessToken c) = Response st tx (Json r)"
  shows "request w e c = (Inr r, c\<lparr>trace := trace c @ [Fetch e (accessToken c)]\<rparr>)"
  using assms by (auto simp: request_def Let_def ok_def)

lemma serves_head:
  assumes "serves w ts p (r # rs)"
  shows "request w (UpdatesFeed ts p) c
     = (Inr r, c\<lparr>trace := trace c @ [Fetch (UpdatesFeed ts p) (accessToken c)]\<rparr>)"
proof -
  from assms obtain st tx where "ok st"
    "fetch w (length (trace c)) (UpdatesFeed ts p) (accessToken c) = Response st tx (Json r)"
    unfolding serves_def by (metis add.right_neutral length_greater_0_conv list.discI nth_Cons_0 of_nat_0)
  then show ?thesis by (rule request_served)
qed

lemma serves_tail:
  assumes "serves w ts p (r # rs)"
  shows "serves w ts (p + 1) rs"
  unfolding serves_def
proof (intro allI impI)
  fix i t tok assume "i < length rs"
  then have "Suc i < length (r # rs)" by simp
  with assms obtain st tx where "ok st"
    "fetch w t (UpdatesFeed ts (p + int (Suc i))) tok = Response st tx (Json ((r # rs) ! Suc i))"
    unfolding serves_def by blast
  then show "\<exists>st txt. ok st \<and> fetch w t (UpdatesFeed ts (p + 1 + int i)) tok = Response st txt (Json (rs ! i))"
    by (auto simp: algebra_simps)
qed

lemma page_fetches_Suc:
  "page_fetches ts p (Suc k) tok = Fetch (UpdatesFeed ts p) tok # page_fetches ts (p + 1) k tok"
proof -
  have "[0..<Suc k] = 0 # map Suc [0..<k]"
    by (simp add: upt_conv_Cons map_Suc_upt del: upt_Suc)
  then show ?thesis
    by (simp add: page_fetches_def comp_def algebra_simps del: upt_Suc)
qed

lemma page_fetches_0: "page_fetches ts p 0 tok = []"
  by (simp add: page_fetches_def)

lemma entries_Cons: "entries (r # rs) = feed r @ entries rs"
  by (simp add: entries_def)




lemma getArticles_loop_exhausts:
  assumes "serves w ts p ps" "linked ps" "ps \<noteq> []" "next (last ps) = None"
    and "int (length acc + length (entries ps)) < lim" and "1 \<le> p"
  shows "getArticles_loop w lim ts acc p True qc ac c
    = Some (Inr \<lparr>articles = acc @ entries ps, nextUrl = None,
                  queueCount = (if p = 1 then queue_count (hd ps) else qc),
                  archiveCount = (if p = 1 then archive_count (hd ps) else ac)\<rparr>,
            c\<lparr>trace := trace c @ page_fetches ts p (length ps) (accessToken c)\<rparr>)"
  using assms
proof (induction ps arbitrary: p c acc qc ac)
  case Nil
  then show ?case by simp
next
  case (Cons r rs)
  let ?c' = "c\<lparr>trace := trace c @ [Fetch (UpdatesFeed ts p) (accessToken c)]\<rparr>"
  let ?qc = "if p = 1 then queue_count r else qc"
  let ?ac = "if p = 1 then archive_count r else ac"
  have req: "request w (UpdatesFeed ts p) c = (Inr r, ?c')"
    using Cons.prems(1) by (rule serves_head)
  have small: "int (length acc) < lim" "\<not> lim \<le> int (length acc + length (feed r))"
    using Cons.prems(5) by (simp_all add: entries_Cons)
  have step: "getArticles_loop w lim ts acc p True qc ac c
      = getArticles_loop w lim ts (acc @ feed r) (p + 1) (next r \<noteq> None) ?qc ?ac ?c'"
    using small by (subst getArticles_loop.simps) (simp add: req Let_def)
  show ?case
  proof (cases rs)
    case Nil
    then have "next r = None" using Cons.prems by simp
    then show ?thesis
      using Nil
      apply (simp only: step)
      apply (subst getArticles_loop.simps)
      apply (simp add: entries_def page_fetches_Suc page_fetches_0)
      done
  next
    case (Cons r' rs')
    then have nx: "next r \<noteq> None" and l: "linked rs" and ne: "rs \<noteq> []"
      and la: "next (last rs) = None"
      using Cons.prems by auto
    have sz: "int (length (acc @ feed r) + length (entries rs)) < lim"
      using Cons.prems(5) by (simp add: entries_Cons)
    have p1: "1 \<le> p + 1" "p + 1 \<noteq> 1"
      using Cons.prems(6) by simp_all
    have ih: "getArticles_loop w lim ts (acc @ feed r) (p + 1) True ?qc ?ac ?c'
      = Some (Inr \<lparr>articles = (acc @ feed r) @ entries rs, nextUrl = None,
                  queueCount = ?qc, archiveCount = ?ac\<rparr>,
            ?c'\<lparr>trace := trace ?c' @ page_fetches ts (p + 1) (length rs) (accessToken ?c')\<rparr>)"
      using Cons.IH [OF serves_tail [OF Cons.prems(1)] l ne la sz p1(1), of ?qc ?ac ?c'] p1(2)
      by simp
    show ?thesis
      using nx by (simp add: step ih entries_Cons page_fetches_Suc)
  qed
qed


lemma pages_needed_least:
  assumes "0 < n" "n \<le> length (entries ps)"
  shows "0 < pages_needed n ps \<and> pages_needed n ps \<le> length ps
    \<and> length (entries (take (pages_needed n ps - 1) ps)) < n
    \<and> n \<le> length (entries (take (pages_needed n ps) ps))"
  using assms
proof (induction ps arbitrary: n)
  case Nil
  then show ?case by (simp add: entries_def)
next
  case (Cons r rs)
  show ?case
  proof (cases "n \<le> length (feed r)")
    case True
    then show ?thesis using Cons.prems by (simp add: entries_def)
  next
    case False
    then have "0 < n - length (feed r)" "n - length (feed r) \<le> length (entries rs)"
      using Cons.prems by (simp_all add: entries_Cons)
    from Cons.IH [OF this] False show ?thesis
      by (cases "pages_needed (n - length (feed r)) rs") (auto simp: entries_Cons)
  qed
qed

lemma getArticles_loop_reaches_limit:
  assumes "serves w ts p ps" "linked ps"
    and "int (length acc) < lim" "lim \<le> int (length acc + length (entries ps))" and "1 \<le> p"
  shows "getArticles_loop w lim ts acc p True qc ac c
      = Some (Inr \<lparr>articles = take (nat lim) (acc @ entries ps),
                  nextUrl = next (ps ! (pages_needed (nat lim - length acc) ps - 1)),
                  queueCount = (if p = 1 then queue_count (hd ps) else qc),
                  archiveCount = (if p = 1 then archive_count (hd ps) else ac)\<rparr>,
            c\<lparr>trace := trace c
               @ page_fetches ts p (pages_needed (nat lim - length acc) ps) (accessToken c)\<rparr>)"
  using assms
proof (induction ps arbitrary: p c acc qc ac)
  case Nil
  then show ?case by (simp add: entries_def)
next
  case (Cons r rs)
  let ?c' = "c\<lparr>trace := trace c @ [Fetch (UpdatesFeed ts p) (accessToken c)]\<rparr>"
  let ?qc = "if p = 1 then queue_count r else qc"
  let ?ac = "if p = 1 then archive_count r else ac"
  have req: "request w (UpdatesFeed ts p) c = (Inr r, ?c')"
    using Cons.prems(1) by (rule serves_head)
  show ?case
  proof (cases "lim \<le> int (length acc + length (feed r))")
    case True
    then have one: "pages_needed (nat lim - length acc) (r # rs) = 1"
      by auto
    have "getArticles_loop w lim ts acc p True qc ac c
      = Some (Inr \<lparr>articles = take (nat lim) (acc @ entries (r # rs)), nextUrl = next r,
                  queueCount = ?qc, archiveCount = ?ac\<rparr>, ?c')"
      using True Cons.prems(3)
      by (subst getArticles_loop.simps) (simp add: req Let_def entries_Cons)
    then show ?thesis
      unfolding one by (simp add: page_fetches_Suc page_fetches_0)
  next
    case False
    have step: "getArticles_loop w lim ts acc p True qc ac c
        = getArticles_loop w lim ts (acc @ feed r) (p + 1) (next r \<noteq> None) ?qc ?ac ?c'"
      using False Cons.prems(3) by (subst getArticles_loop.simps) (simp add: req Let_def)
    have ne: "rs \<noteq> []"
      using False Cons.prems(4) by (auto simp: entries_def)
    then have nx: "next r \<noteq> None" and l: "linked rs"
      using Cons.prems(2) by (cases rs; simp)+
    have sz: "int (length (acc @ feed r)) < lim"
      "lim \<le> int (length (acc @ feed r) + length (entries rs))"
      using False Cons.prems(4) by (simp_all add: entries_Cons)
    have p1: "1 \<le> p + 1" "p + 1 \<noteq> 1"
      using Cons.prems(5) by simp_all
    let ?k = "pages_needed (nat lim - length (acc @ feed r)) rs"
    have more: "pages_needed (nat lim - length acc) (r # rs) = Suc ?k"
      using False by auto
    have pos: "0 < ?k"
      using pages_needed_least [of "nat lim - length (acc @ feed r)" rs] sz by auto
    have ih: "getArticles_loop w lim ts (acc @ feed r) (p + 1) True ?qc ?ac ?c'
        = Some (Inr \<lparr>articles = take (nat lim) ((acc @ feed r) @ entries rs),
                    nextUrl = next (rs ! (?k - 1)), queueCount = ?qc, archiveCount = ?ac\<rparr>,
              ?c'\<lparr>trace := trace ?c' @ page_fetches ts (p + 1) ?k (accessToken ?c')\<rparr>)"
      using Cons.IH [OF serves_tail [OF Cons.prems(1)] l sz p1(1), of ?qc ?ac ?c'] p1(2)
      by simp
    have nth: "(r # rs) ! (Suc ?k - 1) = rs ! (?k - 1)"
      using pos by (cases ?k) simp_all
    show ?thesis
      unfolding more nth
      using nx by (simp add: step ih entries_Cons page_fetches_Suc)
  qed
qed





lemma serves_paged_world: "serves (paged_world ps) ts 1 ps"
  by (auto simp: serves_def paged_world_def ok_def)


lemma stalls_request:
  assumes "stalls w ts cur"
  shows "\<exists>r c'. request w (UpdatesFeed ts p) c = (Inr r, c') \<and> feed r = [] \<and> next r = Some cur"
proof -
  from assms obtain st tx r where a: "ok st"
    "fetch w (length (trace c)) (UpdatesFeed ts p) (accessToken c) = Response st tx (Json r)"
    and b: "feed r = []" "next r = Some cur"
    unfolding stalls_def by blast
  from request_served [OF a] b show ?thesis
    by blast
qed

lemma getArticle_loop_stalls:
  assumes "getArticle_loop w aid nid pg h c = Some y"
  shows "stalls w epoch cur \<longrightarrow> h \<longrightarrow> False"
  using assms
proof (rule getArticle_loop.raw_induct
    [rotated, where P = "\<lambda>w aid nid pg h c y. stalls w epoch cur \<longrightarrow> h \<longrightarrow> False"], goal_cases)
  case (1 loop w aid nid pg h c y)
  show ?case
  proof (intro impI)
    assume st: "stalls w epoch cur" and h: h
    obtain r c' where r: "request w (UpdatesFeed epoch pg) c = (Inr r, c')"
      "feed r = []" "next r = Some cur"
      using stalls_request [OF st] by blast
    from 1(2) h r have "loop w aid nid (pg + 1) True c' = Some y"
      by simp
    with 1(1) st show False by blast
  qed
qed

lemma getArticle_loop_never:
  assumes "stalls w epoch cur"
  shows "getArticle_loop w aid nid pg True c = None"
  using getArticle_loop_stalls [of w aid nid pg True c _ cur] assms
  by (cases "getArticle_loop w aid nid pg True c") auto

lemma getArticles_loop_stalls:
  assumes "getArticles_loop w lim ts acc pg h qc ac c = Some y"
  shows "stalls w ts cur \<longrightarrow> h \<longrightarrow> int (length acc) < lim \<longrightarrow> False"
  using assms
proof (rule getArticles_loop.raw_induct
    [rotated, where P = "\<lambda>w lim ts acc pg h qc ac c y.
       stalls w ts cur \<longrightarrow> h \<longrightarrow> int (length acc) < lim \<longrightarrow> False"], goal_cases)
  case (1 loop w lim ts acc pg h qc ac c y)
  show ?case
  proof (intro impI)
    assume st: "stalls w ts cur" and h: h and small: "int (length acc) < lim"
    obtain r c' where r: "request w (UpdatesFeed ts pg) c = (Inr r, c')"
      "feed r = []" "next r = Some cur"
      using stalls_request [OF st] by blast
    from 1(2) h small r have "\<exists>q a. loop w lim ts acc (pg + 1) True q a c' = Some y"
      by (auto simp: Let_def split: if_splits)
    with 1(1) st small show False by blast
  qed
qed

lemma getArticles_loop_never:
  assumes "stalls w ts cur" "int (length acc) < lim"
  shows "getArticles_loop w lim ts acc pg True qc ac c = None"
  using getArticles_loop_stalls [of w lim ts acc pg True qc ac c _ cur] assms
  by (cases "getArticles_loop w lim ts acc pg True qc ac c") auto

section \<open>The Article Locator\<close>


lemma linked_long_feed: "linked long_feed \<and> long_feed \<noteq> [] \<and> next (last long_feed) = None"
  by (simp add: long_feed_def page_of_def)

lemma entries_long_feed:
  "entries long_feed = [entry ''a'' 1, entry ''b'' 2, entry ''c'' 2, entry ''d'' 123]"
  by (simp add: entries_def long_feed_def page_of_def)




section \<open>The Feed Paginator\<close>

text \<open>
  C2 (as amended). Over pages linked by cursors, with a positive limit and no start page
  given: when the limit is greater than the number of entries and the last page has no cursor,
  \<open>getArticles\<close> returns all the entries in page order with \<open>nextUrl\<close> null, after reading
  every page. When the limit is at most the number of entries, it returns exactly the first
  \<open>limit\<close> entries, with the cursor of the last page it read, and it reads the least number
  of pages that hold that many entries.
\<close>

theorem getArticles_collect:
  assumes "serves w (orElseString ts epoch) 1 ps" "linked ps" "ps \<noteq> []" "0 < lim"
  shows "(int (length (entries ps)) < lim \<and> next (last ps) = None \<longrightarrow>
        getArticles w \<lparr>opt_limit = Some lim, opt_page = None, opt_afterTimestamp = ts\<rparr> c
          = Some (Inr \<lparr>articles = entries ps, nextUrl = None,
                        queueCount = queue_count (hd ps), archiveCount = archive_count (hd ps)\<rparr>,
                  c\<lparr>trace := trace c
                     @ page_fetches (orElseString ts epoch) 1 (length ps) (accessToken c)\<rparr>))
    \<and> (lim \<le> int (length (entries ps)) \<longrightarrow>
        getArticles w \<lparr>opt_limit = Some lim, opt_page = None, opt_afterTimestamp = ts\<rparr> c
          = Some (Inr \<lparr>articles = take (nat lim) (entries ps),
                        nextUrl = next (ps ! (pages_needed (nat lim) ps - 1)),
                        queueCount = queue_count (hd ps), archiveCount = archive_count (hd ps)\<rparr>,
                  c\<lparr>trace := trace c
                     @ page_fetches (orElseString ts epoch) 1 (pages_needed (nat lim) ps)
                         (accessToken c)\<rparr>)
        \<and> length (take (nat lim) (entries ps)) = nat lim
        \<and> 0 < pages_needed (nat lim) ps \<and> pages_needed (nat lim) ps \<le> length ps
        \<and> length (entries (take (pages_needed (nat lim) ps - 1) ps)) < nat lim
        \<and> nat lim \<le> length (entries (take (pages_needed (nat lim) ps) ps)))"
proof (intro conjI impI)
  assume "int (length (entries ps)) < lim \<and> next (last ps) = None"
  then have big: "int (length ([] :: FeedEntry list) + length (entries ps)) < lim"
    and la: "next (last ps) = None"
    by simp_all
  show "getArticles w \<lparr>opt_limit = Some lim, opt_page = None, opt_afterTimestamp = ts\<rparr> c
      = Some (Inr \<lparr>articles = entries ps, nextUrl = None,
                    queueCount = queue_count (hd ps), archiveCount = archive_count (hd ps)\<rparr>,
              c\<lparr>trace := trace c
                 @ page_fetches (orElseString ts epoch) 1 (length ps) (accessToken c)\<rparr>)"
    using getArticles_loop_exhausts [OF assms(1,2,3) la big, of None None c] assms(4)
    by (simp add: getArticles_def orElseInt_def)
next
  assume le: "lim \<le> int (length (entries ps))"
  then have fits: "int (length ([] :: FeedEntry list)) < lim"
    "lim \<le> int (length ([] :: FeedEntry list) + length (entries ps))"
    using assms(4) by simp_all
  show "getArticles w \<lparr>opt_limit = Some lim, opt_page = None, opt_afterTimestamp = ts\<rparr> c
      = Some (Inr \<lparr>articles = take (nat lim) (entries ps),
                    nextUrl = next (ps ! (pages_needed (nat lim) ps - 1)),
                    queueCount = queue_count (hd ps), archiveCount = archive_count (hd ps)\<rparr>,
              c\<lparr>trace := trace c
                 @ page_fetches (orElseString ts epoch) 1 (pages_needed (nat lim) ps)
                     (accessToken c)\<rparr>)"
    using getArticles_loop_reaches_limit [OF assms(1,2) fits, of None None c] assms(4)
    by (simp add: getArticles_def orElseInt_def)
  have n: "0 < nat lim" "nat lim \<le> length (entries ps)"
    using assms(4) le by simp_all
  show "length (take (nat lim) (entries ps)) = nat lim"
    using n by simp
  show "0 < pages_needed (nat lim) ps" "pages_needed (nat lim) ps \<le> length ps"
    "length (entries (take (pages_needed (nat lim) ps - 1) ps)) < nat lim"
    "nat lim \<le> length (entries (take (pages_needed (nat lim) ps) ps))"
    using pages_needed_least [OF n] by simp_all
qed

theorem getArticles_collect_witness:
  "map_option fst (getArticles (paged_world long_feed) (options_limit 9) reader)
     = Some (Inr \<lparr>articles = [entry ''a'' 1, entry ''b'' 2, entry ''c'' 2, entry ''d'' 123],
                   nextUrl = None, queueCount = None, archiveCount = None\<rparr>)
   \<and> map_option fst (getArticles (paged_world long_feed) (options_limit 3) reader)
     = Some (Inr \<lparr>articles = [entry ''a'' 1, entry ''b'' 2, entry ''c'' 2],
                   nextUrl = None, queueCount = None, archiveCount = None\<rparr>)
   \<and> getArticles (paged_world long_feed) (options_limit 1) reader
     = Some (Inr \<lparr>articles = [entry ''a'' 1],
                   nextUrl = Some (js ''c1''), queueCount = None, archiveCount = None\<rparr>,
             reader\<lparr>trace := [Fetch (UpdatesFeed epoch 1) (js ''tok'')]\<rparr>)"
proof -
  have s: "serves (paged_world long_feed) (orElseString None epoch) 1 long_feed"
    by (rule serves_paged_world)
  have l: "linked long_feed" "long_feed \<noteq> []"
    using linked_long_feed by simp_all
  have n: "pages_needed 3 long_feed = 3" "pages_needed (Suc 0) long_feed = Suc 0"
    by (simp_all add: long_feed_def page_of_def)
  have h: "hd long_feed = page_of [entry ''a'' 1, entry ''b'' 2] (Some (js ''c1''))"
    "long_feed ! 2 = page_of [entry ''c'' 2, entry ''d'' 123] None"
    "long_feed ! 0 = page_of [entry ''a'' 1, entry ''b'' 2] (Some (js ''c1''))"
    by (simp_all add: long_feed_def)
  have "(0::int) < 9" "(0::int) < 3" "(0::int) < 1"
    by simp_all
  from getArticles_collect [OF s l this(1), of reader]
    getArticles_collect [OF s l this(2), of reader]
    getArticles_collect [OF s l this(3), of reader]
  show ?thesis
    using linked_long_feed
    by (simp add: options_limit_def entries_long_feed n h page_of_def page_fetches_def
        reader_def orElseString_def)
qed

text \<open>
  C2, the claim as stated fails when the limit equals the number of entries and the pages
  after the one that completes it are empty: the limit (1) is at least the total (1) and the
  last page has no cursor, yet \<open>nextUrl\<close> is the cursor of the first page, not null.
\<close>

theorem getArticles_limit_equals_total_counterexample:
  "getArticles (paged_world trailing_feed) (options_limit 1) reader
     = Some (Inr \<lparr>articles = [entry ''a'' 1], nextUrl = Some (js ''c1''),
                   queueCount = None, archiveCount = None\<rparr>,
             reader\<lparr>trace := [Fetch (UpdatesFeed epoch 1) (js ''tok'')]\<rparr>)
   \<and> int (length (entries trailing_feed)) = 1
   \<and> next (last trailing_feed) = None"
proof -
  have r: "request (paged_world trailing_feed) (UpdatesFeed epoch 1) reader
      = (Inr (page_of [entry ''a'' 1] (Some (js ''c1''))),
         reader\<lparr>trace := [Fetch (UpdatesFeed epoch 1) (js ''tok'')]\<rparr>)"
    by (simp add: request_def paged_world_def trailing_feed_def reader_def ok_def Let_def)
  have "getArticles (paged_world trailing_feed) (options_limit 1) reader
     = Some (Inr \<lparr>articles = [entry ''a'' 1], nextUrl = Some (js ''c1''),
                   queueCount = None, archiveCount = None\<rparr>,
             reader\<lparr>trace := [Fetch (UpdatesFeed epoch 1) (js ''tok'')]\<rparr>)"
    unfolding getArticles_def
    by (subst getArticles_loop.simps)
       (simp add: options_limit_def orElseInt_def orElseString_def r page_of_def Let_def)
  then show ?thesis
    by (simp add: entries_def trailing_feed_def page_of_def)
qed

section \<open>Empty pages and cursors\<close>

text \<open>
  C6. One iteration of either loop on a page without entries: what decides is the cursor
  alone. With a cursor present the loop goes on to the next page, with the entries gathered
  so far unchanged; with the cursor absent the loop ends, \<open>getArticle\<close> with \<open>null\<close> and
  \<open>getArticles\<close> with what it has gathered. (The other ways out of the loops are a match, the
  limit and an exception; none of them is open on an empty page that was answered.)
\<close>

theorem empty_page_keeps_going:
  assumes "request w (UpdatesFeed epoch pg) c = (Inr r, c')" "feed r = []"
    and "request w (UpdatesFeed ts pg) c = (Inr r2, c2)" "feed r2 = []"
    and "int (length acc) < lim"
  shows "getArticle_loop w articleId numericId pg True c
      = (if next r = None then Some (Inr None, c')
         else getArticle_loop w articleId numericId (pg + 1) True c')
    \<and> getArticles_loop w lim ts acc pg True qc ac c
      = (if next r2 = None
         then Some (Inr \<lparr>articles = acc, nextUrl = None,
                         queueCount = (if pg = 1 then queue_count r2 else qc),
                         archiveCount = (if pg = 1 then archive_count r2 else ac)\<rparr>, c2)
         else getArticles_loop w lim ts acc (pg + 1) True
                (if pg = 1 then queue_count r2 else qc)
                (if pg = 1 then archive_count r2 else ac) c2)"
proof
  have step: "getArticle_loop w articleId numericId pg True c
      = getArticle_loop w articleId numericId (pg + 1) (next r \<noteq> None) c'"
    using assms(1,2) by (subst getArticle_loop.simps) simp
  have stop: "getArticle_loop w articleId numericId (pg + 1) False c' = Some (Inr None, c')"
    by (subst getArticle_loop.simps) simp
  show "getArticle_loop w articleId numericId pg True c
      = (if next r = None then Some (Inr None, c')
         else getArticle_loop w articleId numericId (pg + 1) True c')"
    using step stop by (cases "next r") simp_all
next
  let ?qc = "if pg = 1 then queue_count r2 else qc"
  let ?ac = "if pg = 1 then archive_count r2 else ac"
  have step: "getArticles_loop w lim ts acc pg True qc ac c
      = getArticles_loop w lim ts acc (pg + 1) (next r2 \<noteq> None) ?qc ?ac c2"
    using assms(3,4,5) by (subst getArticles_loop.simps) (simp add: Let_def)
  have stop: "getArticles_loop w lim ts acc (pg + 1) False ?qc ?ac c2
      = Some (Inr \<lparr>articles = acc, nextUrl = None, queueCount = ?qc, archiveCount = ?ac\<rparr>, c2)"
    by (subst getArticles_loop.simps) simp
  show "getArticles_loop w lim ts acc pg True qc ac c
      = (if next r2 = None
         then Some (Inr \<lparr>articles = acc, nextUrl = None, queueCount = ?qc, archiveCount = ?ac\<rparr>, c2)
         else getArticles_loop w lim ts acc (pg + 1) True ?qc ?ac c2)"
    using step stop by (cases "next r2") simp_all
qed

theorem empty_page_keeps_going_witness:
  "getArticle_loop (paged_world long_feed) (js ''d'') None 2 True reader
     = getArticle_loop (paged_world long_feed) (js ''d'') None 3 True
         (reader\<lparr>trace := [Fetch (UpdatesFeed epoch 2) (js ''tok'')]\<rparr>)
   \<and> getArticles_loop (paged_world long_feed) 9 epoch [entry ''a'' 1] 2 True None None reader
     = getArticles_loop (paged_world long_feed) 9 epoch [entry ''a'' 1] 3 True None None
         (reader\<lparr>trace := [Fetch (UpdatesFeed epoch 2) (js ''tok'')]\<rparr>)"
proof -
  let ?c = "reader\<lparr>trace := [Fetch (UpdatesFeed epoch 2) (js ''tok'')]\<rparr>"
  have r: "request (paged_world long_feed) (UpdatesFeed epoch 2) reader
      = (Inr (page_of [] (Some (js ''c2''))), ?c)"
    by (simp add: request_def paged_world_def long_feed_def reader_def ok_def Let_def)
  have e: "feed (page_of [] (Some (js ''c2''))) = []"
    by (simp add: page_of_def)
  have small: "int (length [entry ''a'' 1]) < 9"
    by simp
  show ?thesis
    using empty_page_keeps_going [OF r e r e small, of "js ''d''" None None None]
    by (simp add: page_of_def)
qed

section \<open>A provider that repeats its cursor\<close>

text \<open>
  C9 (as amended). The loops test the cursor for null and ask for the next page number;
  they never compare a cursor with an earlier one. Against a provider that answers every
  page with no entries and one and the same cursor, neither \<open>getArticle\<close> nor \<open>getArticles\<close>
  (with a positive limit) returns: no value, and no exception either.
\<close>

theorem repeated_cursor_never_returns:
  assumes "stalls w epoch cur" "stalls w (orElseString ts epoch) cur2" "0 < lim"
  shows "getArticle w articleId c = None
    \<and> getArticles w \<lparr>opt_limit = Some lim, opt_page = pg, opt_afterTimestamp = ts\<rparr> c = None"
proof
  show "getArticle w articleId c = None"
    unfolding getArticle_def using assms(1) by (rule getArticle_loop_never)
next
  have "int (length ([] :: FeedEntry list)) < orElseInt (Some lim) 100"
    using assms(3) by (simp add: orElseInt_def)
  with assms(2) show
    "getArticles w \<lparr>opt_limit = Some lim, opt_page = pg, opt_afterTimestamp = ts\<rparr> c = None"
    unfolding getArticles_def by (simp add: getArticles_loop_never)
qed

lemma stalls_stuck_world: "stalls stuck_world ts (js ''same'')"
  by (simp add: stalls_def stuck_world_def ok_def)

theorem repeated_cursor_never_returns_witness:
  "getArticle stuck_world (js ''abc'') reader = None
   \<and> getArticles stuck_world (options_limit 20) reader = None"
proof -
  have "(0::int) < 20" by simp
  from repeated_cursor_never_returns [OF stalls_stuck_world stalls_stuck_world this]
  show ?thesis
    by (simp add: options_limit_def)
qed

text \<open>
  C9, the claim as stated fails: against the provider that repeats the cursor \<open>same\<close> the
  search for article 1 and the listing with limit 1 do not return; in particular they do not
  raise a failed request.
\<close>

theorem repeated_cursor_counterexample:
  "getArticle stuck_world (js ''1'') reader = None
   \<and> getArticles stuck_world (options_limit 1) reader = None"
proof
  show "getArticle stuck_world (js ''1'') reader = None"
    unfolding getArticle_def using stalls_stuck_world by (rule getArticle_loop_never)
next
  have "getArticles_loop stuck_world 1 epoch [] 1 True None None reader = None"
    using stalls_stuck_world by (rule getArticles_loop_never) simp
  then show "getArticles stuck_world (options_limit 1) reader = None"
    by (simp add: getArticles_def options_limit_def orElseInt_def orElseString_def)
qed

section \<open>Identifiers with a numeric prefix\<close>



section \<open>The tool at the operation boundary\<close>





section \<open>The envelopes: Base64, UTF-8 and JSON\<close>

lemma b64index_b64char: "i < 64 \<Longrightarrow> b64index (b64char i) = Some i"
  by (auto simp: b64index_def b64char_def)

lemma b64char_not_pad: "i < 64 \<Longrightarrow> b64char i \<noteq> 61"
  by (auto simp: b64char_def)

lemma pack:
  fixes x y n :: nat
  assumes "y < n"
  shows "(x * n + y) div n = x" "(x * n + y) mod n = y"
  using assms by simp_all

lemma sextets_small:
  fixes a b c :: nat
  assumes "a < 256" "b < 256" "c < 256"
  shows "a div 4 < 64" "a mod 4 * 16 + b div 16 < 64" "b mod 16 * 4 + c div 64 < 64" "c mod 64 < 64"
    "a mod 4 * 16 < 64" "b mod 16 * 4 < 64"
proof -
  have x: "a mod 4 < 4" "b mod 16 < 16" by simp_all
  have y: "b div 16 < 16" "c div 64 < 4"
    using assms by (simp_all add: less_mult_imp_div_less)
  show "a div 4 < 64"
    using assms by (simp add: less_mult_imp_div_less)
  show "a mod 4 * 16 + b div 16 < 64" "b mod 16 * 4 + c div 64 < 64"
    "a mod 4 * 16 < 64" "b mod 16 * 4 < 64"
    using x y by linarith+
  show "c mod 64 < 64" by simp
qed

lemma sextets_back:
  fixes a b c :: nat
  assumes "a < 256" "b < 256" "c < 256"
  shows "a div 4 * 4 + (a mod 4 * 16 + b div 16) div 16 = a"
    "(a mod 4 * 16 + b div 16) mod 16 * 16 + (b mod 16 * 4 + c div 64) div 4 = b"
    "(b mod 16 * 4 + c div 64) mod 4 * 64 + c mod 64 = c"
    "a div 4 * 4 + (a mod 4 * 16) div 16 = a"
    "(a mod 4 * 16 + b div 16) mod 16 * 16 + (b mod 16 * 4) div 4 = b"
proof -
  have y: "b div 16 < 16" "c div 64 < 4"
    using assms by (simp_all add: less_mult_imp_div_less)
  show "a div 4 * 4 + (a mod 4 * 16 + b div 16) div 16 = a"
    unfolding pack(1) [OF y(1)] by simp
  show "(a mod 4 * 16 + b div 16) mod 16 * 16 + (b mod 16 * 4 + c div 64) div 4 = b"
    unfolding pack(2) [OF y(1)] pack(1) [OF y(2)] by simp
  show "(b mod 16 * 4 + c div 64) mod 4 * 64 + c mod 64 = c"
    unfolding pack(2) [OF y(2)] by simp
  show "a div 4 * 4 + (a mod 4 * 16) div 16 = a"
    by simp
  show "(a mod 4 * 16 + b div 16) mod 16 * 16 + (b mod 16 * 4) div 4 = b"
    unfolding pack(2) [OF y(1)] by simp
qed


lemma b64_step:
  assumes "i1 < 64" "i2 < 64" "i3 < 64" "i4 < 64"
  shows "List.map_filter b64index (takeWhile (\<lambda>u. u \<noteq> 61)
            (b64char i1 # b64char i2 # b64char i3 # b64char i4 # r))
       = i1 # i2 # i3 # i4 # List.map_filter b64index (takeWhile (\<lambda>u. u \<noteq> 61) r)"
  using assms by (simp add: List.map_filter_simps b64index_b64char b64char_not_pad)

lemma b64decode_b64encode:
  assumes "list_all (\<lambda>b. b < 256) bs"
  shows "b64decode (b64encode bs) = bs"
  unfolding b64decode_def using assms
proof (induction bs rule: b64encode.induct)
  case 1
  then show ?case by (simp add: List.map_filter_simps)
next
  case (2 a)
  then have a: "a < 256" by simp
  show ?case
    using sextets_small(1,5) [OF a a a] sextets_back(4) [OF a a a]
    by (simp add: List.map_filter_simps b64index_b64char b64char_not_pad)
next
  case (3 a b)
  then have a: "a < 256" and b: "b < 256" by simp_all
  show ?case
    using sextets_small(1,2,6) [OF a b b] sextets_back(1,5) [OF a b b]
    by (simp add: List.map_filter_simps b64index_b64char b64char_not_pad)
next
  case (4 a b c bs)
  then have a: "a < 256" and b: "b < 256" and c: "c < 256" and r: "list_all (\<lambda>b. b < 256) bs"
    by simp_all
  have "decodeGroups (List.map_filter b64index (takeWhile (\<lambda>u. u \<noteq> 61) (b64encode (a # b # c # bs))))
      = decodeGroups (a div 4 # (a mod 4 * 16 + b div 16) # (b mod 16 * 4 + c div 64) # (c mod 64)
          # List.map_filter b64index (takeWhile (\<lambda>u. u \<noteq> 61) (b64encode bs)))"
    using b64_step [OF sextets_small(1-4) [OF a b c]] by simp
  also have "\<dots> = a # b # c # decodeGroups (List.map_filter b64index (takeWhile (\<lambda>u. u \<noteq> 61) (b64encode bs)))"
    using sextets_back(1-3) [OF a b c] by simp
  finally show ?case
    using 4(1) [OF r] by simp
qed

lemma utf8_decode_ascii_Cons: "b < 128 \<Longrightarrow> utf8_decode (b # bs) = b # utf8_decode bs"
  by (subst utf8_decode.simps(2)) (simp only: if_True)

lemma utf8_encode_ascii_Cons: "u < 128 \<Longrightarrow> utf8_encode (u # us) = u # utf8_encode us"
  by (subst utf8_encode.simps(2)) (simp only: if_True)

lemma utf8_decode_ascii:
  "list_all (\<lambda>b. b < 128) bs \<Longrightarrow> utf8_decode (bs @ r) = bs @ utf8_decode r"
  by (induction bs) (simp_all add: utf8_decode_ascii_Cons)

lemma utf8_encode_ascii:
  "list_all (\<lambda>b. b < 128) s \<Longrightarrow> utf8_encode (s @ r) = s @ utf8_encode r"
  by (induction s) (simp_all add: utf8_encode_ascii_Cons)

lemma utf8_decode_E9_quote: "utf8_decode (233 # 34 # r) = 65533 # 34 # utf8_decode r"
  by (subst utf8_decode.simps(2)) (simp add: utf8_decode_ascii_Cons)

lemma utf8_decode_FFFD: "utf8_decode (239 # 191 # 189 # r) = 65533 # utf8_decode r"
  by (subst utf8_decode.simps(2)) (simp add: isCont_def)

lemma utf8_encode_FFFD: "utf8_encode (65533 # r) = 239 # 191 # 189 # utf8_encode r"
  by (subst utf8_encode.simps(2)) (simp add: isHigh_def isLow_def)

lemma hexValue_hexDigit: "d < 16 \<Longrightarrow> hexValue (hexDigit d) = Some d"
  by (auto simp: hexValue_def hexDigit_def)

lemma hex4_digits:
  assumes "u < 65536"
  shows "hex4 (hexDigit (u div 4096)) (hexDigit (u div 256 mod 16)) (hexDigit (u div 16 mod 16))
           (hexDigit (u mod 16)) = Some u"
proof -
  have "u div 4096 < 16"
    using assms by (simp add: less_mult_imp_div_less)
  moreover have "u div 4096 * 4096 + u div 256 mod 16 * 256 + u div 16 mod 16 * 16 + u mod 16 = u"
  proof -
    have "u div 16 div 16 = u div 256" "u div 256 div 16 = u div 4096"
      by (simp_all add: div_mult2_eq [symmetric])
    then have "u div 16 = u div 256 * 16 + u div 16 mod 16"
      "u div 256 = u div 4096 * 16 + u div 256 mod 16"
      using div_mult_mod_eq [of "u div 16" 16] div_mult_mod_eq [of "u div 256" 16] by simp_all
    moreover have "True" ..
    moreover have "u = u div 16 * 16 + u mod 16"
      by simp
    ultimately show ?thesis by linarith
  qed
  ultimately show ?thesis
    by (simp add: hex4_def hexValue_hexDigit)
qed

lemma unquote_escapeUnit: "unquoteBody (escapeUnit u @ t) = consTo u (unquoteBody t)"
proof -
  consider (esc) "u \<in> {8, 9, 10, 12, 13, 34, 92}"
    | (hex) "u \<notin> {8, 9, 10, 12, 13, 34, 92}" "u < 32 \<or> isHigh u \<or> isLow u"
    | (raw) "u \<notin> {8, 9, 10, 12, 13, 34, 92}" "\<not> (u < 32 \<or> isHigh u \<or> isLow u)"
    by blast
  then show ?thesis
  proof cases
    case esc
    then show ?thesis
      by (auto simp: escapeUnit_def unescape_def)
  next
    case hex
    then have "u < 65536"
      by (auto simp: isHigh_def isLow_def)
    then show ?thesis
      using hex by (simp add: escapeUnit_def hex4_digits)
  next
    case raw
    then show ?thesis
      by (simp add: escapeUnit_def)
  qed
qed

lemma unquote_end: "unquoteBody (34 # t) = Some ([], t)"
  by simp

lemma unquote_quoteBody: "unquoteBody (quoteBody s @ 34 # t) = Some (s, t)"
proof (induction s rule: quoteBody.induct)
  case 1
  then show ?case by simp
next
  case (2 u)
  then show ?case
    by (simp add: unquote_escapeUnit unquote_end consTo_def del: unquoteBody.simps)
next
  case (3 u l us)
  show ?case
  proof (cases "isHigh u \<and> isLow l")
    case True
    then have "u \<noteq> 34" "u \<noteq> 92" "\<not> u < 32" "l \<noteq> 34" "l \<noteq> 92" "\<not> l < 32"
      by (auto simp: isHigh_def isLow_def)
    then show ?thesis
      using True 3(1) by (simp add: consTo_def)
  next
    case False
    then have "quoteBody (u # l # us) = escapeUnit u @ quoteBody (l # us)"
      by auto
    then show ?thesis
      using 3(2) [OF False] by (simp add: unquote_escapeUnit consTo_def del: unquoteBody.simps)
  qed
qed

lemma parseMember_quoted:
  "parseMember (quote k @ 58 # quote v @ t) = Some ((k, v), dropWhile isJsonWs t)"
proof -
  have a: "dropWhile isJsonWs (34 # x) = 34 # x" "dropWhile isJsonWs (58 # x) = 58 # x" for x
    by (simp_all add: isJsonWs_def)
  have k: "unquoteBody (quoteBody k @ 34 # 58 # quote v @ t) = Some (k, 58 # quote v @ t)"
    by (rule unquote_quoteBody)
  have v: "unquoteBody (quoteBody v @ 34 # t) = Some (v, t)"
    by (rule unquote_quoteBody)
  show ?thesis
    unfolding parseMember_def
    by (simp add: quote_def isJsonWs_def unquote_quoteBody del: unquoteBody.simps)
qed

lemma parseObject_stringify2:
  "parseObject (stringify2 k1 v1 k2 v2) = Some [(k1, v1), (k2, v2)]"
proof -
  have m1: "parseMember (quote k1 @ 58 # quote v1 @ 44 # quote k2 @ 58 # quote v2 @ [125])
      = Some ((k1, v1), 44 # quote k2 @ 58 # quote v2 @ [125])"
    using parseMember_quoted [of k1 v1 "44 # quote k2 @ 58 # quote v2 @ [125]"]
    by (simp add: isJsonWs_def)
  have m2: "parseMember (quote k2 @ 58 # quote v2 @ [125]) = Some ((k2, v2), [125])"
    using parseMember_quoted [of k2 v2 "[125]"] by (simp add: isJsonWs_def)
  have ms: "parseMembers (quote k1 @ 58 # quote v1 @ 44 # quote k2 @ 58 # quote v2 @ [125]) []
      = Some ([(k1, v1), (k2, v2)], [])"
    by (subst parseMembers.simps, simp only: m1, simp, subst parseMembers.simps, simp only: m2, simp)
  have q: "quote k1 @ x = 34 # quoteBody k1 @ 34 # x" for x
    by (simp add: quote_def)
  show ?thesis
    unfolding parseObject_def stringify2_def
    using ms by (simp add: isJsonWs_def q del: parseMembers.simps)
qed

lemma hexDigit_ascii: "d < 16 \<Longrightarrow> hexDigit d < 128"
  by (simp add: hexDigit_def)

lemma escapeUnit_ascii:
  assumes "u < 128"
  shows "list_all (\<lambda>u. u < 128) (escapeUnit u)"
proof -
  have "u div 4096 < 16" "u div 256 mod 16 < 16" "u div 16 mod 16 < 16" "u mod 16 < 16"
    using assms by (simp_all add: less_mult_imp_div_less)
  then have "list_all (\<lambda>u. u < 128)
      [92, 117, hexDigit (u div 4096), hexDigit (u div 256 mod 16), hexDigit (u div 16 mod 16),
       hexDigit (u mod 16)]"
    by (simp add: hexDigit_ascii)
  then show ?thesis
    unfolding escapeUnit_def using assms by simp
qed

lemma quoteBody_ascii:
  "list_all (\<lambda>u. u < 128) s \<Longrightarrow> list_all (\<lambda>u. u < 128) (quoteBody s)"
proof (induction s rule: quoteBody.induct)
  case 1
  then show ?case by simp
next
  case (2 u)
  then show ?case
    by (simp add: escapeUnit_ascii)
next
  case (3 u l us)
  then have "\<not> isHigh u" "list_all (\<lambda>u. u < 128) (escapeUnit u)"
    by (simp_all add: isHigh_def escapeUnit_ascii)
  with 3 show ?case by simp
qed

lemma stringify2_ascii:
  assumes "list_all (\<lambda>u. u < 128) k1" "list_all (\<lambda>u. u < 128) v1"
    "list_all (\<lambda>u. u < 128) k2" "list_all (\<lambda>u. u < 128) v2"
  shows "list_all (\<lambda>u. u < 128) (stringify2 k1 v1 k2 v2)"
  using assms by (simp add: stringify2_def quote_def quoteBody_ascii)

lemma bytes_of_ascii: "list_all (\<lambda>u. u < 128) (s :: nat list) \<Longrightarrow> list_all (\<lambda>u. u < 256) s"
  by (induction s) auto

lemma within_of_ascii: "list_all (\<lambda>u. u < 128) (s :: nat list) \<Longrightarrow> list_all (\<lambda>u. u \<le> 255) s"
  by (induction s) auto

lemma b64encode_not_empty: "bs \<noteq> [] \<Longrightarrow> b64encode bs \<noteq> []"
  by (induction bs rule: b64encode.induct) simp_all

lemma stringify2_not_empty: "stringify2 k1 v1 k2 v2 \<noteq> []"
  by (simp add: stringify2_def)

lemma keys_ascii:
  "list_all (\<lambda>u. u < 128) (js ''access_token'')" "list_all (\<lambda>u. u < 128) (js ''refresh_token'')"
  "list_all (\<lambda>u. u < 128) (js ''accessToken'')" "list_all (\<lambda>u. u < 128) (js ''refreshToken'')"
  by (simp_all add: js_def)

lemma keys_differ:
  "js ''access_token'' \<noteq> js ''refresh_token''" "js ''accessToken'' \<noteq> js ''refreshToken''"
  by (simp_all add: js_def)

lemma property_two:
  "k1 \<noteq> k2 \<Longrightarrow> property [(k1, v1), (k2, v2)] k1 = Some v1 \<and> property [(k1, v1), (k2, v2)] k2 = Some v2"
  by (simp add: property_def)

text \<open>
  Opening an envelope whose text is ASCII: the Base64 text of the JSON text of two string
  members decodes to those members.
\<close>

lemma open_ascii_envelope:
  assumes "list_all (\<lambda>u. u < 128) (stringify2 k1 v1 k2 v2)"
  shows "parseObject (utf8_decode (b64decode (b64encode (stringify2 k1 v1 k2 v2))))
      = Some [(k1, v1), (k2, v2)]"
proof -
  have "b64decode (b64encode (stringify2 k1 v1 k2 v2)) = stringify2 k1 v1 k2 v2"
    using assms by (intro b64decode_b64encode bytes_of_ascii)
  moreover have "utf8_decode (stringify2 k1 v1 k2 v2) = stringify2 k1 v1 k2 v2"
    using utf8_decode_ascii [OF assms, of "[]"] by simp
  ultimately show ?thesis
    by (simp add: parseObject_stringify2)
qed

lemma token_handler_ascii:
  assumes "a \<noteq> []" "r \<noteq> []" "list_all (\<lambda>u. u < 128) a" "list_all (\<lambda>u. u < 128) r"
  shows "authorization_code a r
      = Some (b64encode (stringify2 (js ''access_token'') a (js ''refresh_token'') r))"
    and "token_handler (js ''POST'')
           (Some (b64encode (stringify2 (js ''access_token'') a (js ''refresh_token'') r)))
      = Tokens (b64encode (stringify2 (js ''accessToken'') a (js ''refreshToken'') r)) r"
proof -
  let ?s = "stringify2 (js ''access_token'') a (js ''refresh_token'') r"
  let ?s2 = "stringify2 (js ''accessToken'') a (js ''refreshToken'') r"
  have s: "list_all (\<lambda>u. u < 128) ?s" and s2: "list_all (\<lambda>u. u < 128) ?s2"
    using assms(3,4) by (simp_all add: stringify2_ascii keys_ascii)
  show "authorization_code a r = Some (b64encode ?s)"
    using within_of_ascii [OF s] by (simp add: authorization_code_def btoa_def)
  have ne: "b64encode ?s \<noteq> []"
    by (simp add: b64encode_not_empty stringify2_not_empty)
  have m: "js ''POST'' \<noteq> js ''OPTIONS''"
    by (simp add: js_def)
  have e: "utf8_encode ?s2 = ?s2"
    using utf8_encode_ascii [OF s2, of "[]"] by simp
  show "token_handler (js ''POST'') (Some (b64encode ?s)) = Tokens (b64encode ?s2) r"
    using assms(1,2) property_two [OF keys_differ(1), of a r]
    by (simp add: token_handler_def m ne open_ascii_envelope [OF s] e)
qed

lemma bearer_length: "length (js ''Bearer '') = 7"
  by (simp add: js_def)

text \<open>
  The round trip of the two envelopes holds for tokens of 7-bit characters that are not
  empty.
\<close>

lemma round_trip_ascii:
  assumes "a \<noteq> []" "r \<noteq> []" "list_all (\<lambda>u. u < 128) a" "list_all (\<lambda>u. u < 128) r"
  shows "round_trip a r = Some \<lparr>accessToken = a, refreshToken = r\<rparr>"
proof -
  let ?s2 = "stringify2 (js ''accessToken'') a (js ''refreshToken'') r"
  have s2: "list_all (\<lambda>u. u < 128) ?s2"
    using assms(3,4) by (simp add: stringify2_ascii keys_ascii)
  have "bearerTokens (b64encode ?s2) = Some \<lparr>accessToken = a, refreshToken = r\<rparr>"
    using assms(1,2) property_two [OF keys_differ(2), of a r]
    by (simp add: bearerTokens_def open_ascii_envelope [OF s2])
  then show ?thesis
    using token_handler_ascii [OF assms]
    by (simp add: round_trip_def getTokensFromRequest_def bearer_length)
qed

section \<open>The round trip of a pair through the two envelopes\<close>

lemma envelope_E9:
  "stringify2 (js ''access_token'') [233] (js ''refresh_token'') (js ''r'')
     = js ''{\"access_token\":\"'' @ 233 # js ''\",\"refresh_token\":\"r\"}''"
  "stringify2 (js ''access_token'') [65533] (js ''refresh_token'') (js ''r'')
     = js ''{\"access_token\":\"'' @ 65533 # js ''\",\"refresh_token\":\"r\"}''"
  "stringify2 (js ''accessToken'') [65533] (js ''refreshToken'') (js ''r'')
     = js ''{\"accessToken\":\"'' @ 65533 # js ''\",\"refreshToken\":\"r\"}''"
  by (simp_all add: stringify2_def quote_def js_def escapeUnit_def isHigh_def isLow_def)

lemma texts_ascii:
  "list_all (\<lambda>u. u < 128) (js ''{\"access_token\":\"'')"
  "list_all (\<lambda>u. u < 128) (js ''\",\"refresh_token\":\"r\"}'')"
  "list_all (\<lambda>u. u < 128) (js ''{\"accessToken\":\"'')"
  "list_all (\<lambda>u. u < 128) (js ''\",\"refreshToken\":\"r\"}'')"
  by (simp_all add: js_def)

lemma decode_tail:
  "list_all (\<lambda>u. u < 128) t \<Longrightarrow> utf8_decode t = t"
  "list_all (\<lambda>u. u < 128) t \<Longrightarrow> utf8_encode t = t"
  using utf8_decode_ascii [of t "[]"] utf8_encode_ascii [of t "[]"] by simp_all

lemma first_hop_E9:
  "utf8_decode (b64decode (b64encode
      (stringify2 (js ''access_token'') [233] (js ''refresh_token'') (js ''r''))))
    = stringify2 (js ''access_token'') [65533] (js ''refresh_token'') (js ''r'')"
proof -
  let ?p = "js ''{\"access_token\":\"''" and ?q = "js ''\",\"refresh_token\":\"r\"}''"
  have "list_all (\<lambda>b. b < 256) (?p @ 233 # ?q)"
    by (simp add: js_def)
  then have "b64decode (b64encode (?p @ 233 # ?q)) = ?p @ 233 # ?q"
    by (rule b64decode_b64encode)
  moreover have "?q = 34 # tl ?q" "list_all (\<lambda>u. u < 128) (tl ?q)"
    by (simp_all add: js_def)
  then have "utf8_decode (233 # ?q) = 65533 # ?q"
    using utf8_decode_E9_quote [of "tl ?q"] decode_tail(1) [of "tl ?q"] by simp
  then have "utf8_decode (?p @ 233 # ?q) = ?p @ 65533 # ?q"
    using utf8_decode_ascii [OF texts_ascii(1), of "233 # ?q"] by simp
  ultimately show ?thesis
    by (simp only: envelope_E9)
qed

lemma second_hop_FFFD:
  "utf8_decode (b64decode (b64encode (utf8_encode
      (stringify2 (js ''accessToken'') [65533] (js ''refreshToken'') (js ''r'')))))
    = stringify2 (js ''accessToken'') [65533] (js ''refreshToken'') (js ''r'')"
proof -
  let ?p = "js ''{\"accessToken\":\"''" and ?q = "js ''\",\"refreshToken\":\"r\"}''"
  have enc: "utf8_encode (?p @ 65533 # ?q) = ?p @ 239 # 191 # 189 # ?q"
    using utf8_encode_ascii [OF texts_ascii(3), of "65533 # ?q"] decode_tail(2) [OF texts_ascii(4)]
    by (simp add: utf8_encode_FFFD)
  have "list_all (\<lambda>b. b < 256) (?p @ 239 # 191 # 189 # ?q)"
    by (simp add: js_def)
  then have "b64decode (b64encode (?p @ 239 # 191 # 189 # ?q)) = ?p @ 239 # 191 # 189 # ?q"
    by (rule b64decode_b64encode)
  moreover have "utf8_decode (?p @ 239 # 191 # 189 # ?q) = ?p @ 65533 # ?q"
    using utf8_decode_ascii [OF texts_ascii(3), of "239 # 191 # 189 # ?q"]
      decode_tail(1) [OF texts_ascii(4)]
    by (simp add: utf8_decode_FFFD)
  ultimately show ?thesis
    by (simp only: envelope_E9 enc)
qed

text \<open>
  C3, at the failing input: the access token is the one letter U+00E9 and the refresh token
  is \<open>r\<close>. The page packs the pair (\<open>btoa\<close> takes the letter as the byte E9), the token
  endpoint reads the bytes as UTF-8, where a lone E9 is ill-formed, and hands on U+FFFD; the
  resource endpoint opens the bearer token to the pair U+FFFD, \<open>r\<close>. A token with a letter
  above U+00FF gives no authorization code at all.
\<close>

theorem round_trip_E9:
  "round_trip [233] (js ''r'') = Some \<lparr>accessToken = [65533], refreshToken = js ''r''\<rparr>
   \<and> round_trip [256] (js ''r'') = None"
proof
  let ?s = "stringify2 (js ''access_token'') [233] (js ''refresh_token'') (js ''r'')"
  let ?s2 = "stringify2 (js ''accessToken'') [65533] (js ''refreshToken'') (js ''r'')"
  have code: "authorization_code [233] (js ''r'') = Some (b64encode ?s)"
    unfolding authorization_code_def btoa_def envelope_E9 by (simp add: js_def)
  have ne: "b64encode ?s \<noteq> []"
    by (simp add: b64encode_not_empty stringify2_not_empty)
  have m: "js ''POST'' \<noteq> js ''OPTIONS''" "js ''r'' \<noteq> []"
    by (simp_all add: js_def)
  have tok: "token_handler (js ''POST'') (Some (b64encode ?s))
      = Tokens (b64encode (utf8_encode ?s2)) (js ''r'')"
    using property_two [OF keys_differ(1), of "[65533]" "js ''r''"] m ne
    by (simp add: token_handler_def first_hop_E9 parseObject_stringify2)
  have "bearerTokens (b64encode (utf8_encode ?s2))
      = Some \<lparr>accessToken = [65533], refreshToken = js ''r''\<rparr>"
    using property_two [OF keys_differ(2), of "[65533]" "js ''r''"] m
    by (simp add: bearerTokens_def second_hop_FFFD parseObject_stringify2)
  then show "round_trip [233] (js ''r'')
      = Some \<lparr>accessToken = [65533], refreshToken = js ''r''\<rparr>"
    by (simp add: round_trip_def code tok getTokensFromRequest_def bearer_length)
next
  have "\<not> list_all (\<lambda>u. u \<le> 255)
      (stringify2 (js ''access_token'') [256] (js ''refresh_token'') (js ''r''))"
    by (simp add: stringify2_def quote_def escapeUnit_def isHigh_def isLow_def)
  then show "round_trip [256] (js ''r'') = None"
    by (simp add: round_trip_def authorization_code_def btoa_def)
qed

section \<open>The polling loop\<close>












end
